theory Spec2Isabelle
  imports Main "HOL-Library.Log_Nat" "HOL-Library.Sublist"
begin

section \<open>Google Maps lead engine: coordinates, discovery, validation, persistence\<close>

text \<open>
  A shallow embedding of \<^verbatim>\<open>py_lead_generation/src/google_maps/engine.py\<close>
  (class \<^verbatim>\<open>GoogleMapsEngine\<close>). Python \<^verbatim>\<open>str\<close> values are modelled as
  \<^typ>\<open>string\<close>, a list of 8-bit characters read as the code points 0 to 255; on these
  the regular-expression class \<^verbatim>\<open>\d\<close> is exactly the ten ASCII digits.
\<close>

subsection \<open>Class constants\<close>

type_synonym row = "string list"

definition FIELD_NAMES :: row where
  "FIELD_NAMES = [''Title'', ''Address'', ''PhoneNumber'', ''WebsiteURL'',
                  ''GoogleMapsURL'', ''PlaceLat'', ''PlaceLang'']"


definition SLEEP_PER_SCROLL_S :: rat where
  "SLEEP_PER_SCROLL_S = 2"

definition SCROLL_TIME_DURATION_S :: int where
  "SCROLL_TIME_DURATION_S = 200"

text \<open>The placeholder \<^verbatim>\<open>'No Info'\<close> used for every value that could not be found.\<close>

definition No_Info :: string where
  "No_Info = ''No Info''"

subsection \<open>The two regular expressions of \<^verbatim>\<open>extract_lat_lang_from_url\<close>\<close>

definition is_digit :: "char \<Rightarrow> bool" where
  "is_digit c = (c \<in> set ''0123456789'')"

text \<open>The character class \<^verbatim>\<open>[-.\d]\<close>.\<close>

definition coord_char :: "char \<Rightarrow> bool" where
  "coord_char c = (c = CHR ''-'' \<or> c = CHR ''.'' \<or> is_digit c)"

text \<open>\<^verbatim>\<open>text.startswith(lit)\<close>, returning the rest of the text behind the literal.\<close>

fun strip_literal :: "string \<Rightarrow> string \<Rightarrow> string option" where
  "strip_literal [] s = Some s"
| "strip_literal (c # cs) [] = None"
| "strip_literal (c # cs) (d # ds) = (if c = d then strip_literal cs ds else None)"

text \<open>
  The group \<^verbatim>\<open>([-.\d]+)\<close> followed by something that is not in the class (a
  literal \<^verbatim>\<open>!\<close> or \<^verbatim>\<open>,\<close>, or the end of the pattern): the greedy
  quantifier takes the longest run of class characters, and giving characters back can
  never help, because the next pattern character is outside the class. The result is
  the captured text and the rest; \<open>None\<close> when the run is empty.
\<close>

definition coord_group :: "string \<Rightarrow> (string \<times> string) option" where
  "coord_group s =
     (let g = takeWhile coord_char s
      in if g = [] then None else Some (g, dropWhile coord_char s))"

text \<open>\<^verbatim>\<open>!3d([-.\d]+)!4d([-.\d]+)\<close> matched at the start of the text.\<close>

definition match_place_at :: "string \<Rightarrow> (string \<times> string) option" where
  "match_place_at s =
     (case strip_literal ''!3d'' s of None \<Rightarrow> None
      | Some r1 \<Rightarrow>
        (case coord_group r1 of None \<Rightarrow> None
         | Some (g1, r2) \<Rightarrow>
           (case strip_literal ''!4d'' r2 of None \<Rightarrow> None
            | Some r3 \<Rightarrow>
              (case coord_group r3 of None \<Rightarrow> None
               | Some (g2, r4) \<Rightarrow> Some (g1, g2)))))"

text \<open>\<^verbatim>\<open>@([-.\d]+),([-.\d]+),\<close> matched at the start of the text.\<close>

definition match_center_at :: "string \<Rightarrow> (string \<times> string) option" where
  "match_center_at s =
     (case strip_literal ''@'' s of None \<Rightarrow> None
      | Some r1 \<Rightarrow>
        (case coord_group r1 of None \<Rightarrow> None
         | Some (g1, r2) \<Rightarrow>
           (case strip_literal '','' r2 of None \<Rightarrow> None
            | Some r3 \<Rightarrow>
              (case coord_group r3 of None \<Rightarrow> None
               | Some (g2, r4) \<Rightarrow>
                 (case strip_literal '','' r4 of None \<Rightarrow> None
                  | Some r5 \<Rightarrow> Some (g1, g2))))))"

text \<open>
  \<^verbatim>\<open>re.search\<close>: the match at the leftmost position of the text where the pattern
  matches, its \<^verbatim>\<open>groups()\<close> as the result; \<open>None\<close> when there is none.
\<close>

fun re_search :: "(string \<Rightarrow> 'a option) \<Rightarrow> string \<Rightarrow> 'a option" where
  "re_search m [] = m []"
| "re_search m (c # cs) =
     (case m (c # cs) of Some g \<Rightarrow> Some g | None \<Rightarrow> re_search m cs)"

text \<open>The substring test \<^verbatim>\<open>lit in text\<close>.\<close>

fun contains :: "string \<Rightarrow> string \<Rightarrow> bool" where
  "contains lit [] = (lit = [])"
| "contains lit (c # cs) = (strip_literal lit (c # cs) \<noteq> None \<or> contains lit cs)"

text \<open>
  \<^verbatim>\<open>
  def extract_lat_lang_from_url(self, url):
      if '!3d' in url and '!4d' in url:
         match = re.search(r'!3d([-.\d]+)!4d([-.\d]+)', url)
      else:
         match = re.search(r'@([-.\d]+),([-.\d]+),', url)
      if match:
         return match.groups()
      else:
         return 'No Info', 'No Info'
  \<close>
\<close>

definition extract_lat_lang_from_url :: "string \<Rightarrow> string \<times> string" where
  "extract_lat_lang_from_url link =
     (let match = (if contains ''!3d'' link \<and> contains ''!4d'' link
                   then re_search match_place_at link
                   else re_search match_center_at link)
      in case match of Some groups \<Rightarrow> groups | None \<Rightarrow> (No_Info, No_Info))"

text \<open>
  The rule of the specification, for comparison: the place pattern is tried first, and
  the map-centre pattern is tried whenever the place pattern has no match.
\<close>

definition spec_extract_lat_lang :: "string \<Rightarrow> string \<times> string" where
  "spec_extract_lat_lang link =
     (case re_search match_place_at link of
        Some groups \<Rightarrow> groups
      | None \<Rightarrow>
        (case re_search match_center_at link of
           Some groups \<Rightarrow> groups
         | None \<Rightarrow> (No_Info, No_Info)))"

subsection \<open>Python floats: \<^verbatim>\<open>float(str)\<close>, \<^verbatim>\<open>round(x, 1)\<close> and \<^verbatim>\<open>==\<close>\<close>

text \<open>
  A Python float is an IEEE 754 binary64 number. \<open>Finite neg m e\<close> is the number
  \<open>\<plusminus> m \<times> 2\<^sup>e\<close> with the sign bit \<open>neg\<close>; it is kept in the canonical form of the format:
  \<open>2\<^sup>5\<^sup>2 \<le> m < 2\<^sup>5\<^sup>3\<close> and \<open>-1074 \<le> e \<le> 971\<close> for a normal number, \<open>m < 2\<^sup>5\<^sup>2\<close> and
  \<open>e = -1074\<close> for a subnormal number or a zero.
\<close>

datatype pyfloat = Finite bool int int | Infinity bool | NaN

datatype error = ValueError | AttributeError | NotImplementedError | UnicodeEncodeError

text \<open>The quotient \<open>a / b\<close> of two integers (\<open>0 \<le> a\<close>, \<open>0 < b\<close>) rounded to the nearest
  integer, a tie going to the even one.\<close>

definition round_half_even_div :: "int \<Rightarrow> int \<Rightarrow> int" where
  "round_half_even_div a b =
     (let q = a div b; r = a mod b
      in if 2 * r < b then q else if b < 2 * r then q + 1 else if even q then q else q + 1)"

text \<open>The integer \<open>g\<close> with \<open>2\<^sup>g \<le> num / den < 2\<^sup>g\<^sup>+\<^sup>1\<close>, for \<open>0 < num\<close> and \<open>0 < den\<close>.\<close>

definition floor_log2 :: "int \<Rightarrow> int \<Rightarrow> int" where
  "floor_log2 num den =
     (let g = bitlen num - bitlen den
      in if (if 0 \<le> g then den * 2 ^ nat g \<le> num else den \<le> num * 2 ^ nat (- g))
         then g else g - 1)"

text \<open>
  The binary64 number nearest to \<open>\<plusminus> num / den\<close> (round to nearest, ties to even, gradual
  underflow, overflow to infinity): what the correctly rounded conversions of CPython
  return for a decimal numeral.
\<close>

definition nearest_double :: "bool \<Rightarrow> int \<Rightarrow> int \<Rightarrow> pyfloat" where
  "nearest_double neg num den =
     (if num = 0 then Finite neg 0 (- 1074)
      else let sh = max (floor_log2 num den) (- 1022) - 52;
               m = (if 0 \<le> sh then round_half_even_div num (den * 2 ^ nat sh)
                    else round_half_even_div (num * 2 ^ nat (- sh)) den)
           in if m = 2 ^ 53
              then (if 971 < sh + 1 then Infinity neg else Finite neg (2 ^ 52) (sh + 1))
              else if 971 < sh then Infinity neg else Finite neg m sh)"

text \<open>
  \<^verbatim>\<open>round(x, 1)\<close>: the exact value of \<open>x\<close> is rounded to one digit behind the decimal
  point (ties to even) and the resulting decimal is converted back to the nearest
  double. A double with a non-negative exponent is an integer and is returned as it is;
  infinities and NaN round to themselves.
\<close>

fun py_round1 :: "pyfloat \<Rightarrow> pyfloat" where
  "py_round1 (Finite neg m e) =
     (if 0 \<le> e then Finite neg m e
      else nearest_double neg (round_half_even_div (m * 10) (2 ^ nat (- e))) 10)"
| "py_round1 x = x"

text \<open>\<^verbatim>\<open>x == y\<close> on floats: the two zeros are equal, NaN is equal to nothing.\<close>

fun py_float_eq :: "pyfloat \<Rightarrow> pyfloat \<Rightarrow> bool" where
  "py_float_eq (Finite n1 m1 e1) (Finite n2 m2 e2) =
     ((m1 = 0 \<and> m2 = 0) \<or> (n1 = n2 \<and> m1 = m2 \<and> e1 = e2))"
| "py_float_eq (Infinity n1) (Infinity n2) = (n1 = n2)"
| "py_float_eq x y = False"

text \<open>The grammar of \<^verbatim>\<open>float(str)\<close>.\<close>

definition is_space :: "char \<Rightarrow> bool" where
  "is_space c = (c \<in> set [CHR 0x09, CHR 0x0A, CHR 0x0B, CHR 0x0C, CHR 0x0D, CHR 0x20,
                           CHR 0x85, CHR 0xA0])"

definition digit_val :: "char \<Rightarrow> int" where
  "digit_val c = of_char c - 48"

definition digits_val :: "string \<Rightarrow> int" where
  "digits_val ds = foldl (\<lambda>n c. 10 * n + digit_val c) 0 ds"

definition to_lower :: "char \<Rightarrow> char" where
  "to_lower c = (if c \<in> set ''ABCDEFGHIJKLMNOPQRSTUVWXYZ''
                 then char_of (of_char c + (32::nat)) else c)"

text \<open>An underscore stands only between two digits; \<open>prev\<close> is the character before.\<close>

fun underscores_ok :: "char option \<Rightarrow> string \<Rightarrow> bool" where
  "underscores_ok prev [] = (prev \<noteq> Some CHR ''_'')"
| "underscores_ok prev (c # cs) =
     ((if c = CHR ''_'' then (case prev of Some p \<Rightarrow> is_digit p | None \<Rightarrow> False)
       else (prev = Some CHR ''_'' \<longrightarrow> is_digit c))
      \<and> underscores_ok (Some c) cs)"

definition parse_sign :: "string \<Rightarrow> bool \<times> string" where
  "parse_sign s =
     (case s of [] \<Rightarrow> (False, [])
      | c # r \<Rightarrow> if c = CHR ''-'' then (True, r)
                 else if c = CHR ''+'' then (False, r) else (False, s))"

text \<open>The exponent part behind the mantissa: empty, or \<^verbatim>\<open>e\<close>, a sign and digits.\<close>

definition parse_exponent :: "string \<Rightarrow> int option" where
  "parse_exponent s =
     (case s of [] \<Rightarrow> Some 0
      | c # r \<Rightarrow>
        if c = CHR ''e'' \<or> c = CHR ''E''
        then (case parse_sign r of (neg, ds) \<Rightarrow>
                if ds \<noteq> [] \<and> list_all is_digit ds
                then Some (if neg then - digits_val ds else digits_val ds)
                else None)
        else None)"

text \<open>A decimal numeral without its sign: digits, an optional point and digits, at
  least one digit in all, an optional exponent. The result is the value as a fraction.\<close>

definition parse_decimal :: "string \<Rightarrow> (int \<times> int) option" where
  "parse_decimal s =
     (let ip = takeWhile is_digit s; r1 = dropWhile is_digit s;
          fp = (case r1 of [] \<Rightarrow> []
                | c # r \<Rightarrow> if c = CHR ''.'' then takeWhile is_digit r else []);
          r2 = (case r1 of [] \<Rightarrow> []
                | c # r \<Rightarrow> if c = CHR ''.'' then dropWhile is_digit r else r1)
      in if ip = [] \<and> fp = [] then None
         else (case parse_exponent r2 of None \<Rightarrow> None
               | Some x \<Rightarrow>
                 (let d = digits_val (ip @ fp); k = x - int (length fp)
                  in if 0 \<le> k then Some (d * 10 ^ nat k, 1)
                     else Some (d, 10 ^ nat (- k)))))"

text \<open>
  \<^verbatim>\<open>float(s)\<close> for a string: underscores are checked and removed, white space is
  stripped on both sides, and the rest is a sign followed by \<^verbatim>\<open>inf\<close>,
  \<^verbatim>\<open>infinity\<close>, \<^verbatim>\<open>nan\<close> (in any case) or a decimal numeral. Anything else raises
  \<^verbatim>\<open>ValueError\<close>, here the result \<open>None\<close>.
\<close>

definition py_float :: "string \<Rightarrow> pyfloat option" where
  "py_float s =
     (if \<not> underscores_ok None s then None
      else let t = rev (dropWhile is_space (rev (dropWhile is_space
                     (filter (\<lambda>c. c \<noteq> CHR ''_'') s))))
           in case parse_sign t of (neg, body) \<Rightarrow>
                if map to_lower body \<in> set [''inf'', ''infinity''] then Some (Infinity neg)
                else if map to_lower body = ''nan'' then Some NaN
                else (case parse_decimal body of None \<Rightarrow> None
                      | Some (num, den) \<Rightarrow> Some (nearest_double neg num den)))"

text \<open>
  The rational number a float stands for (0 for an infinity and for NaN), and the number
  of tenths nearest to it, a tie going to the even number: \<open>nearest_tenth x = n\<close> says that
  \<open>n / 10\<close> is the value of \<open>x\<close> rounded to one decimal digit.
\<close>

fun is_finite :: "pyfloat \<Rightarrow> bool" where
  "is_finite (Finite neg m e) = True"
| "is_finite x = False"

fun float_value :: "pyfloat \<Rightarrow> rat" where
  "float_value (Finite neg m e) = (if neg then - 1 else 1) * of_int m * 2 powi e"
| "float_value x = 0"

definition round_half_even :: "rat \<Rightarrow> int" where
  "round_half_even q =
     (let f = \<lfloor>q\<rfloor>; r = q - of_int f
      in if r < 1 / 2 then f else if 1 / 2 < r then f + 1 else if even f then f else f + 1)"

definition nearest_tenth :: "pyfloat \<Rightarrow> int" where
  "nearest_tenth x =
     (if float_value x < 0 then - round_half_even (- float_value x * 10)
      else round_half_even (float_value x * 10))"

text \<open>The floats that the binary64 format has: a normal number, or a subnormal number
  or zero.\<close>

text \<open>The number of tenths nearest to the magnitude \<open>m * 2 powi e\<close>.\<close>

definition tenths :: "int \<Rightarrow> int \<Rightarrow> int" where
  "tenths m e = round_half_even (of_int m * 2 powi e * 10)"

fun canonical :: "pyfloat \<Rightarrow> bool" where
  "canonical (Finite neg m e) =
     (2 ^ 52 \<le> m \<and> m < 2 ^ 53 \<and> - 1074 \<le> e \<and> e \<le> 971 \<or> 0 \<le> m \<and> m < 2 ^ 52 \<and> e = - 1074)"
| "canonical x = True"

text \<open>
  \<^verbatim>\<open>x - y\<close> on floats: the exact difference of two finite floats, an integer \<open>k\<close> times
  \<open>2\<^sup>e\<close> for the smaller exponent \<open>e\<close>, rounded to the nearest double; an exact zero is
  \<open>+0.0\<close> unless \<open>x\<close> is \<open>-0.0\<close> and \<open>y\<close> is \<open>+0.0\<close>.
\<close>

definition scaled_double :: "int \<Rightarrow> int \<Rightarrow> pyfloat" where
  "scaled_double k e =
     (if 0 \<le> e then nearest_double (k < 0) (\<bar>k\<bar> * 2 ^ nat e) 1
      else nearest_double (k < 0) \<bar>k\<bar> (2 ^ nat (- e)))"

fun py_sub :: "pyfloat \<Rightarrow> pyfloat \<Rightarrow> pyfloat" where
  "py_sub (Finite n1 m1 e1) (Finite n2 m2 e2) =
     (let e = min e1 e2;
          k = (if n1 then - m1 else m1) * 2 ^ nat (e1 - e)
                - (if n2 then - m2 else m2) * 2 ^ nat (e2 - e)
      in if k = 0 then Finite (m1 = 0 \<and> n1 \<and> \<not> n2) 0 (- 1074) else scaled_double k e)"
| "py_sub (Finite n1 m1 e1) (Infinity n2) = Infinity (\<not> n2)"
| "py_sub (Infinity n1) (Finite n2 m2 e2) = Infinity n1"
| "py_sub (Infinity n1) (Infinity n2) = (if n1 = n2 then NaN else Infinity n1)"
| "py_sub x y = NaN"

text \<open>\<^verbatim>\<open>x > k\<close> for a float \<open>x\<close> and an \<^verbatim>\<open>int\<close> \<open>k\<close>: Python compares the two exactly.\<close>

fun py_gt_int :: "pyfloat \<Rightarrow> int \<Rightarrow> bool" where
  "py_gt_int (Finite neg m e) k =
     (if 0 \<le> e then k < (if neg then - m else m) * 2 ^ nat e
      else k * 2 ^ nat (- e) < (if neg then - m else m))"
| "py_gt_int (Infinity neg) k = (\<not> neg)"
| "py_gt_int NaN k = False"

text \<open>The double nearest to a rational number.\<close>

definition double_of_rat :: "rat \<Rightarrow> pyfloat" where
  "double_of_rat q = (case quotient_of q of (a, b) \<Rightarrow> nearest_double (a < 0) \<bar>a\<bar> b)"

subsection \<open>The comparison of \<^verbatim>\<open>run\<close>\<close>

text \<open>
  Lines 221 to 228 of the loop body of \<^verbatim>\<open>run\<close>:
  \<^verbatim>\<open>
  main_lat_rounded = round(float(main_lat), 1)
  main_lang_rounded = round(float(main_lang), 1)
  place_lat_rounded = round(float(place_lat), 1)
  place_lang_rounded = round(float(place_lang), 1)
  if (main_lat_rounded == place_lat_rounded and
      main_lang_rounded == place_lang_rounded):
  \<close>
  The value is the verdict of the \<^verbatim>\<open>if\<close>, or the \<^verbatim>\<open>ValueError\<close> of the first
  \<^verbatim>\<open>float\<close> that cannot convert its string.
\<close>

definition lat_lng_match :: "string \<times> string \<Rightarrow> string \<times> string \<Rightarrow> error + bool" where
  "lat_lng_match main place =
     (case py_float (fst main) of None \<Rightarrow> Inl ValueError
      | Some main_lat \<Rightarrow>
     (case py_float (snd main) of None \<Rightarrow> Inl ValueError
      | Some main_lang \<Rightarrow>
     (case py_float (fst place) of None \<Rightarrow> Inl ValueError
      | Some place_lat \<Rightarrow>
     (case py_float (snd place) of None \<Rightarrow> Inl ValueError
      | Some place_lang \<Rightarrow>
          Inr (py_float_eq (py_round1 main_lat) (py_round1 place_lat)
               \<and> py_float_eq (py_round1 main_lang) (py_round1 place_lang))))))"

subsection \<open>The browser, the clock and the file system\<close>

text \<open>
  Every call the engine makes to the browser page (Playwright), to \<^verbatim>\<open>asyncio.sleep\<close>
  and to \<^verbatim>\<open>time.time\<close> is recorded, in order, in a history. What the outside world
  answers is given by a \<open>world\<close>: one function of the history so far for each kind of
  question the code asks.
\<close>

datatype event =
    Goto string
  | QuerySelector string
  | QuerySelectorAll string
  | Hover
  | MouseWheel int int
  | Sleep rat
  | Time pyfloat
  | Content

record world =
  clock :: "event list \<Rightarrow> rat"
  main_pane :: "event list \<Rightarrow> bool"
  end_locator :: "event list \<Rightarrow> bool"
  link_hrefs :: "event list \<Rightarrow> string list"
  page_content :: "event list \<Rightarrow> string"
  select_one :: "string \<Rightarrow> string \<Rightarrow> string option"
  unencodable :: "row \<Rightarrow> bool"

text \<open>
  \<^item> \<open>clock w h\<close>: the time of the system clock after the calls \<open>h\<close>, in seconds;
    \<^verbatim>\<open>time.time()\<close> returns the double nearest to it;
  \<^item> \<open>main_pane w h\<close>: \<^verbatim>\<open>page.query_selector('[role="main"]')\<close> finds an element;
  \<^item> \<open>end_locator w h\<close>: \<^verbatim>\<open>page.query_selector('.m6QErb.tLjsW.eKbjU')\<close> finds one;
  \<^item> \<open>link_hrefs w h\<close>: the \<^verbatim>\<open>href\<close> attributes of
    \<^verbatim>\<open>page.query_selector_all('a.hfpxzc')\<close>, in document order;
  \<^item> \<open>page_content w h\<close>: the HTML \<^verbatim>\<open>page.content()\<close> returns;
  \<^item> \<open>select_one w html css\<close>: the text of \<^verbatim>\<open>BeautifulSoup(html).select_one(css)\<close>,
    \<open>None\<close> when nothing is selected;
  \<^item> \<open>unencodable w row\<close>: \<^verbatim>\<open>writer.writerow(row)\<close> raises \<^verbatim>\<open>UnicodeEncodeError\<close> and
    writes nothing: the sink of \<^verbatim>\<open>run\<close> is opened with the strict utf-8 codec, and text
    read from a page can hold code points that this codec refuses (lone surrogates). The
    8-bit characters of this model stand for the text of the page; the world says which
    rows are refused.

  The state is the engine object (\<^verbatim>\<open>self._entries\<close>, \<^verbatim>\<open>self.url\<close>, whether
  \<^verbatim>\<open>self.page\<close> is set), the history, and the files: a file is the list of the rows
  that \<^verbatim>\<open>csv.writer\<close> objects have written to it.
\<close>

record state =
  entries :: "row list"
  url :: string
  page :: bool
  history :: "event list"
  files :: "string \<rightharpoonup> row list"

text \<open>\<^verbatim>\<open>time.time()\<close> after the calls \<open>h\<close>.\<close>

definition time_time :: "world \<Rightarrow> event list \<Rightarrow> pyfloat" where
  "time_time w h = double_of_rat (clock w h)"

definition call :: "event \<Rightarrow> state \<Rightarrow> state" where
  "call ev s = s\<lparr>history := history s @ [ev]\<rparr>"

text \<open>\<^verbatim>\<open>BASE_URL.format(query=..., coords=..., zoom=...)\<close>, the arguments as formatted.\<close>

definition BASE_URL_format :: "string \<Rightarrow> string \<Rightarrow> string \<Rightarrow> string" where
  "BASE_URL_format query coords zoom =
     ''https://www.google.com/maps/search/'' @ query @ ''/@'' @ coords @ '','' @ zoom
       @ ''z/data=!3m1!4b1?entry=ttu''"

text \<open>\<^verbatim>\<open>open(name, mode='a')\<close> creates a missing file and keeps an existing one;
  \<^verbatim>\<open>open(name, mode='w')\<close> leaves an empty file; \<^verbatim>\<open>writer.writerow(r)\<close> adds a row
  at the end.\<close>

definition file_rows :: "state \<Rightarrow> string \<Rightarrow> row list" where
  "file_rows s name = (case files s name of None \<Rightarrow> [] | Some rs \<Rightarrow> rs)"

definition open_append :: "string \<Rightarrow> state \<Rightarrow> state" where
  "open_append name s = s\<lparr>files := (files s)(name \<mapsto> file_rows s name)\<rparr>"


definition writerow :: "string \<Rightarrow> row \<Rightarrow> state \<Rightarrow> state" where
  "writerow name r s = s\<lparr>files := (files s)(name \<mapsto> file_rows s name @ [r])\<rparr>"


subsection \<open>Discovery: \<^verbatim>\<open>_get_search_results_urls\<close> and \<^verbatim>\<open>search\<close>\<close>

definition MAIN_SELECTOR :: string where
  \<open>MAIN_SELECTOR = ''[role="main"]''\<close>

definition END_SELECTOR :: string where
  "END_SELECTOR = ''.m6QErb.tLjsW.eKbjU''"

definition LINK_SELECTOR :: string where
  "LINK_SELECTOR = ''a.hfpxzc''"

text \<open>
  \<^verbatim>\<open>
  leftbar = await self.page.query_selector('[role="main"]')
  await leftbar.hover()
  await asyncio.sleep(0.5)
  \<close>
  When no element is found, \<^verbatim>\<open>leftbar\<close> is \<^verbatim>\<open>None\<close> and \<^verbatim>\<open>leftbar.hover()\<close> raises
  \<^verbatim>\<open>AttributeError\<close>.
\<close>

definition hover_search_results :: "world \<Rightarrow> state \<Rightarrow> (error + unit) \<times> state" where
  "hover_search_results w s =
     (let s1 = call (QuerySelector MAIN_SELECTOR) s
      in if main_pane w (history s1)
         then (Inr (), call (Sleep (1 / 2)) (call Hover s1))
         else (Inl AttributeError, s1))"

text \<open>
  \<^verbatim>\<open>
  while True:
      await scroll_and_sleep()
      finish_scroll_time = time.time()
      if (await end_locator_is_present()) or (finish_scroll_time - start_scroll_time > self.SCROLL_TIME_DURATION_S):
          break
  \<close>
  The loop works on the history alone. The two times are floats, their difference is the
  float subtraction, and the comparison with the \<^verbatim>\<open>int\<close> ceiling is exact. The loop need
  not end: the result is \<open>None\<close> when it runs forever, and the history at the \<^verbatim>\<open>break\<close>
  otherwise.
\<close>

partial_function (option) scroll_loop :: "world \<Rightarrow> pyfloat \<Rightarrow> event list \<Rightarrow> event list option" where
  "scroll_loop w start_scroll_time h =
     (let h1 = h @ [MouseWheel 0 1000, Sleep SLEEP_PER_SCROLL_S];
          finish_scroll_time = time_time w h1;
          h2 = h1 @ [Time finish_scroll_time, QuerySelector END_SELECTOR]
      in if end_locator w h2
            \<or> py_gt_int (py_sub finish_scroll_time start_scroll_time) SCROLL_TIME_DURATION_S
         then Some h2
         else scroll_loop w start_scroll_time h2)"

declare scroll_loop.simps [code]

text \<open>
  \<^verbatim>\<open>
  await hover_search_results()
  start_scroll_time = time.time()
  while True: ...
  urls = await scrape_urls()
  return urls
  \<close>
\<close>

definition get_search_results_urls ::
  "world \<Rightarrow> state \<Rightarrow> ((error + string list) \<times> state) option" where
  "get_search_results_urls w s =
     (case hover_search_results w s of
        (Inl e, s1) \<Rightarrow> Some (Inl e, s1)
      | (Inr _, s1) \<Rightarrow>
        (let start_scroll_time = time_time w (history s1)
         in case scroll_loop w start_scroll_time (history s1 @ [Time start_scroll_time]) of
              None \<Rightarrow> None
            | Some h \<Rightarrow>
              (let s2 = s1\<lparr>history := h @ [QuerySelectorAll LINK_SELECTOR]\<rparr>
               in Some (Inr (link_hrefs w (history s2)), s2))))"

text \<open>
  \<^verbatim>\<open>
  async def search(self):
      if not self.page:
          raise ValueError('Initialize the browser before searching by await *.init_browser()')
      await self.page.goto(self.url)
      await self._get_search_results_urls()
  \<close>
  The list that \<^verbatim>\<open>_get_search_results_urls\<close> returns is dropped.
\<close>

definition search :: "world \<Rightarrow> state \<Rightarrow> ((error + unit) \<times> state) option" where
  "search w s =
     (if \<not> page s then Some (Inl ValueError, s)
      else case get_search_results_urls w (call (Goto (url s)) s) of
             None \<Rightarrow> None
           | Some (Inl e, s1) \<Rightarrow> Some (Inl e, s1)
           | Some (Inr urls, s1) \<Rightarrow> Some (Inr (), s1))"

subsection \<open>Extraction and the pipeline: \<^verbatim>\<open>_parse_data_with_soup\<close>, \<^verbatim>\<open>run\<close>, \<^verbatim>\<open>save_to_csv\<close>\<close>

definition text_or_No_Info :: "string option \<Rightarrow> string" where
  "text_or_No_Info el = (case el of Some t \<Rightarrow> t | None \<Rightarrow> No_Info)"

text \<open>The row \<^verbatim>\<open>[title, address, phone, website, url, place_lat, place_lang]\<close>.\<close>

definition parse_data_with_soup :: "world \<Rightarrow> string \<Rightarrow> string \<Rightarrow> row" where
  \<open>parse_data_with_soup w html link =
     (let place = extract_lat_lang_from_url link
      in [text_or_No_Info (select_one w html ''.DUwDvf.lfPIob''),
          text_or_No_Info (select_one w html ''[data-item-id="address"] .Io6YTe''),
          text_or_No_Info (select_one w html ''[data-tooltip="Copy phone number"] .Io6YTe''),
          text_or_No_Info (select_one w html ''[data-item-id="authority"] .Io6YTe''),
          link, fst place, snd place])\<close>

text \<open>
  The \<^verbatim>\<open>for url in urls\<close> loop of \<^verbatim>\<open>run\<close>, for the reference pair \<open>main\<close> read from
  \<^verbatim>\<open>self.url\<close> before the loop. An exception leaves the loop with the state reached.
  For a matching link the body ends with
  \<^verbatim>\<open>
  self._entries.append(data)
  writer.writerow(data)
  \<close>
  in this order: when \<^verbatim>\<open>writerow\<close> raises, the row is in the entries and not in the sink.
\<close>

fun run_loop :: "world \<Rightarrow> string \<times> string \<Rightarrow> string list \<Rightarrow> state \<Rightarrow> (error + unit) \<times> state" where
  "run_loop w main [] s = (Inr (), s)"
| "run_loop w main (link # links) s =
     (let s1 = call Content (call (Goto link) s);
          html = page_content w (history s1);
          data = parse_data_with_soup w html link;
          place = extract_lat_lang_from_url link
      in case lat_lng_match main place of
           Inl e \<Rightarrow> (Inl e, s1)
         | Inr matched \<Rightarrow>
             if matched
             then (let s2 = s1\<lparr>entries := entries s1 @ [data]\<rparr>
                   in if unencodable w data then (Inl UnicodeEncodeError, s2)
                      else run_loop w main links (writerow ''google_maps_leads.csv'' data s2))
             else run_loop w main links s1)"

text \<open>
  \<^verbatim>\<open>
  async def run(self):
     if not self.page:
         raise ValueError('Initialize the browser before running by await *.init_browser()')
     await self.search()
     urls = await self._get_search_results_urls()
     with open('google_maps_leads.csv', mode='a', newline='', encoding='utf-8') as file:
      writer = csv.writer(file)
      writer.writerow(self.FIELD_NAMES)
      main_lat, main_lang = self.extract_lat_lang_from_url(self.url)
      for url in urls: ...
  \<close>
\<close>

definition run :: "world \<Rightarrow> state \<Rightarrow> ((error + unit) \<times> state) option" where
  "run w s =
     (if \<not> page s then Some (Inl ValueError, s)
      else case search w s of
             None \<Rightarrow> None
           | Some (Inl e, s1) \<Rightarrow> Some (Inl e, s1)
           | Some (Inr _, s1) \<Rightarrow>
             (case get_search_results_urls w s1 of
                None \<Rightarrow> None
              | Some (Inl e, s2) \<Rightarrow> Some (Inl e, s2)
              | Some (Inr urls, s2) \<Rightarrow>
                (let s3 = writerow ''google_maps_leads.csv'' FIELD_NAMES
                            (open_append ''google_maps_leads.csv'' s2);
                     main = extract_lat_lang_from_url (url s3)
                 in Some (run_loop w main urls s3))))"


subsection \<open>Time, and a concrete world to run the engine in\<close>

text \<open>The seconds asked of \<^verbatim>\<open>asyncio.sleep\<close> in a history, the number of scroll
  gestures in it, and the floats that \<^verbatim>\<open>time.time()\<close> returned in it.\<close>

fun slept :: "event list \<Rightarrow> rat" where
  "slept [] = 0"
| "slept (Sleep d # h) = d + slept h"
| "slept (ev # h) = slept h"

fun wheels :: "event list \<Rightarrow> nat" where
  "wheels [] = 0"
| "wheels (MouseWheel dx dy # h) = Suc (wheels h)"
| "wheels (ev # h) = wheels h"


text \<open>
  A clock that does not run backwards and on which a sleep lasts at least as long as
  asked: whatever calls \<open>h'\<close> follow a history \<open>h\<close>, the clock has advanced by at least
  the seconds slept in \<open>h'\<close>.
\<close>

definition clock_ok :: "world \<Rightarrow> bool" where
  "clock_ok w = (\<forall>h h'. clock w h + slept h' \<le> clock w (h @ h'))"

text \<open>
  A world for concrete runs: a scroll gesture takes 70 seconds on top of the pause that
  follows it, the end-of-list marker never appears, every scrape finds the given links,
  the detail pages have none of the four fields, and every row can be written.
\<close>

definition demo_world :: "string list \<Rightarrow> world" where
  "demo_world links =
     \<lparr>clock = (\<lambda>h. slept h + 70 * of_nat (wheels h)),
      main_pane = (\<lambda>h. True),
      end_locator = (\<lambda>h. False),
      link_hrefs = (\<lambda>h. links),
      page_content = (\<lambda>h. ''<html></html>''),
      select_one = (\<lambda>html css. None),
      unencodable = (\<lambda>row. False)\<rparr>"

text \<open>A new engine for the query \<^verbatim>\<open>gym\<close> in \<^verbatim>\<open>Astana\<close> at (51.1801, 71.446), zoom 12,
  after \<^verbatim>\<open>init_browser\<close>; no file exists yet.\<close>

definition demo_state :: state where
  "demo_state =
     \<lparr>entries = [], url = BASE_URL_format ''gym%20Astana'' ''51.1801,71.446'' ''12'',
      page = True, history = [], files = Map.empty\<rparr>"

text \<open>Three links: a place near the reference point, a place far away, and a link that
  carries no coordinates.\<close>

definition link_near :: string where
  "link_near = ''https://www.google.com/maps/place/A/data=!4m7!3m6!1s0x0:0x1!8m2!3d51.18!4d71.44!16s''"

definition link_far :: string where
  "link_far = ''https://www.google.com/maps/place/B/data=!4m7!3m6!1s0x0:0x2!8m2!3d40.71!4d-74.00!16s''"

definition link_bare :: string where
  "link_bare = ''https://www.google.com/maps/place/C''"

definition row_near :: row where
  "row_near = [No_Info, No_Info, No_Info, No_Info, link_near, ''51.18'', ''71.44'']"

text \<open>A link that carries the map centre and both place markers, the markers in the
  other order.\<close>

definition link_swapped :: string where
  "link_swapped = ''https://www.google.com/maps/place/D/@51.1801,71.446,17z/data=!4d71.44!3d51.18''"

text \<open>
  The calls of one discovery pass in \<open>demo_world\<close> that starts at clock time \<open>t0\<close>: three
  scroll cycles of 72 seconds, then the scrape. The history of a whole \<^verbatim>\<open>run\<close> over the
  links \<open>link_near\<close> and \<open>link_far\<close>, from \<open>demo_state\<close>.
\<close>

definition pass_events :: "rat \<Rightarrow> event list" where
  "pass_events t0 =
     [QuerySelector MAIN_SELECTOR, Hover, Sleep (1 / 2), Time (double_of_rat t0),
      MouseWheel 0 1000, Sleep 2, Time (double_of_rat (t0 + 72)), QuerySelector END_SELECTOR,
      MouseWheel 0 1000, Sleep 2, Time (double_of_rat (t0 + 144)), QuerySelector END_SELECTOR,
      MouseWheel 0 1000, Sleep 2, Time (double_of_rat (t0 + 216)), QuerySelector END_SELECTOR,
      QuerySelectorAll LINK_SELECTOR]"

definition demo_history :: "event list" where
  "demo_history =
     [Goto (url demo_state)] @ pass_events (1 / 2) @ pass_events 217
       @ [Goto link_near, Content, Goto link_far, Content]"


text \<open>
  Four more worlds. In \<open>slow_world\<close> the query for the end-of-list marker takes 50
  seconds (a scroll gesture 70 seconds, as before). In \<open>frozen_world\<close> the clock stands
  still. In \<open>no_pane_world\<close> the results pane is never found. In \<open>refusing_world\<close>
  every data row is refused by the codec of the sink.
\<close>

definition slow_world :: world where
  "slow_world =
     \<lparr>clock = (\<lambda>h. slept h + 70 * of_nat (wheels h)
                      + 50 * of_nat (count_list h (QuerySelector END_SELECTOR))),
      main_pane = (\<lambda>h. True),
      end_locator = (\<lambda>h. False),
      link_hrefs = (\<lambda>h. [link_near]),
      page_content = (\<lambda>h. ''<html></html>''),
      select_one = (\<lambda>html css. None),
      unencodable = (\<lambda>row. False)\<rparr>"

definition frozen_world :: world where
  "frozen_world = (demo_world [link_near])\<lparr>clock := (\<lambda>h. 0)\<rparr>"

definition no_pane_world :: world where
  "no_pane_world = (demo_world [link_near])\<lparr>main_pane := (\<lambda>h. False)\<rparr>"

definition refusing_world :: world where
  "refusing_world = (demo_world [link_near, link_far])\<lparr>unencodable := (\<lambda>row. True)\<rparr>"

text \<open>An engine as \<open>demo_state\<close>, where the sink file exists already and holds one row.\<close>

definition used_state :: state where
  "used_state = demo_state\<lparr>files := [''google_maps_leads.csv'' \<mapsto> [[''an earlier row'']]]\<rparr>"

section \<open>Coordinate extraction\<close>

lemma strip_literal_Some: "strip_literal lit s = Some r \<longleftrightarrow> s = lit @ r"
  by (induction lit s rule: strip_literal.induct) auto

lemma contains_iff: "contains lit s \<longleftrightarrow> (\<exists>a b. s = a @ lit @ b)"
proof (induction s)
  case Nil
  then show ?case by auto
next
  case (Cons c cs)
  have "strip_literal lit (c # cs) \<noteq> None \<longleftrightarrow> (\<exists>b. c # cs = lit @ b)"
    using strip_literal_Some[of lit "c # cs"] by auto
  moreover have "(\<exists>a b. c # cs = a @ lit @ b) \<longleftrightarrow> (\<exists>b. c # cs = lit @ b) \<or> (\<exists>a b. cs = a @ lit @ b)"
    apply (rule iffI)
     apply (metis append_Nil append_eq_Cons_conv)
    by (metis append_Cons append_Nil)
  ultimately show ?case using Cons.IH by simp
qed

lemma coord_group_Some: "coord_group s = Some (g, r) \<Longrightarrow> s = g @ r"
  by (auto simp: coord_group_def Let_def split: if_splits)

lemma match_place_at_shape:
  assumes "match_place_at s = Some g"
  shows "\<exists>g1 r. s = ''!3d'' @ g1 @ ''!4d'' @ r"
proof -
  from assms obtain r1 g1 r2 r3 where
    "strip_literal ''!3d'' s = Some r1" "coord_group r1 = Some (g1, r2)"
    "strip_literal ''!4d'' r2 = Some r3"
    by (auto simp: match_place_at_def split: option.splits prod.splits)
  then have "s = ''!3d'' @ r1" "r1 = g1 @ r2" "r2 = ''!4d'' @ r3"
    using strip_literal_Some coord_group_Some by blast+
  then show ?thesis by blast
qed

lemma re_search_Some: "re_search m s = Some g \<Longrightarrow> \<exists>a b. s = a @ b \<and> m b = Some g"
proof (induction s)
  case Nil
  then show ?case by simp
next
  case (Cons c cs)
  show ?case
  proof (cases "m (c # cs)")
    case None
    with Cons obtain a b where "cs = a @ b" "m b = Some g" by auto
    then have "c # cs = (c # a) @ b" by simp
    then show ?thesis using \<open>m b = Some g\<close> by blast
  next
    case (Some g')
    with Cons.prems have "m (c # cs) = Some g" by simp
    then show ?thesis by (metis append_Nil)
  qed
qed

lemma place_match_has_markers:
  assumes "re_search match_place_at link = Some g"
  shows "contains ''!3d'' link \<and> contains ''!4d'' link"
proof -
  from re_search_Some[OF assms] obtain a b where ab: "link = a @ b" "match_place_at b = Some g"
    by blast
  from match_place_at_shape[OF ab(2)] obtain g1 r where b: "b = ''!3d'' @ g1 @ ''!4d'' @ r"
    by blast
  have "link = a @ ''!3d'' @ (g1 @ ''!4d'' @ r)" using ab(1) b by simp
  moreover have "link = (a @ ''!3d'' @ g1) @ ''!4d'' @ r" using ab(1) b by simp
  ultimately show ?thesis unfolding contains_iff by blast
qed

text \<open>
  Claim C4, as amended. For every URL, \<^verbatim>\<open>extract_lat_lang_from_url\<close> returns what
  "place pattern first, map-centre pattern as the fallback, the \<^verbatim>\<open>'No Info'\<close> pair when
  neither matches" returns, except for the URLs that contain both \<^verbatim>\<open>!3d\<close> and
  \<^verbatim>\<open>!4d\<close>, do not match the place pattern and do match the map-centre pattern. In
  particular the result is the \<^verbatim>\<open>'No Info'\<close> pair whenever neither pattern matches.
\<close>

theorem extract_agrees_with_spec:
  assumes "\<not> (contains ''!3d'' link \<and> contains ''!4d'' link
              \<and> re_search match_place_at link = None
              \<and> re_search match_center_at link \<noteq> None)"
  shows "extract_lat_lang_from_url link = spec_extract_lat_lang link"
proof (cases "re_search match_place_at link")
  case None
  then show ?thesis
    using assms by (cases "re_search match_center_at link")
      (auto simp: extract_lat_lang_from_url_def spec_extract_lat_lang_def)
next
  case (Some g)
  then show ?thesis
    using place_match_has_markers[OF Some]
    by (simp add: extract_lat_lang_from_url_def spec_extract_lat_lang_def)
qed

theorem extract_agrees_with_spec_witness:
  "contains ''!3d'' link_near \<and> contains ''!4d'' link_near
   \<and> re_search match_place_at link_near = Some (''51.18'', ''71.44'')
   \<and> extract_lat_lang_from_url link_near = spec_extract_lat_lang link_near
   \<and> extract_lat_lang_from_url link_near = (''51.18'', ''71.44'')"
proof -
  have m: "re_search match_place_at link_near = Some (''51.18'', ''71.44'')"
    by code_simp
  have c: "contains ''!3d'' link_near \<and> contains ''!4d'' link_near"
    by code_simp
  have e: "extract_lat_lang_from_url link_near = (''51.18'', ''71.44'')"
    by code_simp
  from m have "\<not> (contains ''!3d'' link_near \<and> contains ''!4d'' link_near
              \<and> re_search match_place_at link_near = None
              \<and> re_search match_center_at link_near \<noteq> None)" by simp
  from extract_agrees_with_spec[OF this] m c e show ?thesis by simp
qed

text \<open>
  Claim C4 as stated fails: \<open>link_swapped\<close> contains both markers and the place pattern
  does not match it, so the map-centre pattern, which matches with (51.1801, 71.446), is
  never tried and the result is the \<^verbatim>\<open>'No Info'\<close> pair.
\<close>

theorem extract_no_fallback_counterexample:
  "extract_lat_lang_from_url link_swapped = (''No Info'', ''No Info'')
   \<and> spec_extract_lat_lang link_swapped = (''51.1801'', ''71.446'')"
  by code_simp

section \<open>Binary floating point\<close>

subsection \<open>Rounding\<close>

lemma round_half_even_bounds: "\<bar>of_int (round_half_even q) - q\<bar> \<le> 1 / 2"
proof -
  have "of_int \<lfloor>q\<rfloor> \<le> q" "q < of_int \<lfloor>q\<rfloor> + 1" by linarith+
  then show ?thesis
    by (auto simp: round_half_even_def Let_def abs_le_iff)
qed

lemma round_half_even_unique:
  assumes "\<bar>of_int n - q\<bar> < 1 / 2"
  shows "round_half_even q = n"
proof -
  have fl: "of_int \<lfloor>q\<rfloor> \<le> q" "q < of_int \<lfloor>q\<rfloor> + 1" by linarith+
  from assms have b: "of_int n - 1 / 2 < q" "q < of_int n + 1 / 2" by linarith+
  have "\<lfloor>q\<rfloor> = n \<or> \<lfloor>q\<rfloor> = n - 1"
  proof -
    have "of_int (n - 1) < q" using b(1) by simp
    then have "n - 1 \<le> \<lfloor>q\<rfloor>" by linarith
    moreover have "q < of_int (n + 1)" using b(2) by simp
    then have "\<lfloor>q\<rfloor> < n + 1" by linarith
    ultimately show ?thesis by linarith
  qed
  then show ?thesis
  proof
    assume f: "\<lfloor>q\<rfloor> = n"
    then have "q - of_int \<lfloor>q\<rfloor> < 1 / 2" using b(2) by simp
    then show ?thesis by (simp add: round_half_even_def Let_def f)
  next
    assume f: "\<lfloor>q\<rfloor> = n - 1"
    then have "1 / 2 < q - of_int \<lfloor>q\<rfloor>" using b(1) by simp
    then show ?thesis by (simp add: round_half_even_def Let_def f)
  qed
qed

lemma round_half_even_of_int [simp]: "round_half_even (of_int n) = n"
  by (rule round_half_even_unique) simp

lemma round_half_even_nonneg: "0 \<le> q \<Longrightarrow> 0 \<le> round_half_even q"
proof -
  assume "0 \<le> q"
  then have "0 \<le> \<lfloor>q\<rfloor>" by simp
  then show ?thesis by (auto simp: round_half_even_def Let_def)
qed

lemma round_half_even_div_eq:
  assumes "0 < b"
  shows "round_half_even_div a b = round_half_even (of_int a / of_int b)"
proof -
  have f: "\<lfloor>(of_int a :: rat) / of_int b\<rfloor> = a div b" by (rule floor_divide_of_int_eq)
  have "(of_int a :: rat) = of_int (a div b) * of_int b + of_int (a mod b)"
    by (metis div_mult_mod_eq of_int_add of_int_mult)
  then have r: "(of_int a :: rat) / of_int b - of_int (a div b) = of_int (a mod b) / of_int b"
    using assms by (simp add: field_simps)
  have c1: "(of_int (a mod b) :: rat) / of_int b < 1 / 2 \<longleftrightarrow> 2 * (a mod b) < b"
  proof -
    have "(of_int (a mod b) :: rat) / of_int b < 1 / 2 \<longleftrightarrow> (of_int (2 * (a mod b)) :: rat) < of_int b"
      using assms by (simp add: field_simps)
    then show ?thesis by (simp only: of_int_less_iff)
  qed
  have c2: "1 / 2 < (of_int (a mod b) :: rat) / of_int b \<longleftrightarrow> b < 2 * (a mod b)"
  proof -
    have "1 / 2 < (of_int (a mod b) :: rat) / of_int b \<longleftrightarrow> (of_int b :: rat) < of_int (2 * (a mod b))"
      using assms by (simp add: field_simps)
    then show ?thesis by (simp only: of_int_less_iff)
  qed
  show ?thesis
    unfolding round_half_even_div_def round_half_even_def Let_def f r c1 c2 by simp
qed

subsection \<open>Powers of two\<close>

lemma two_powi: "(2::rat) powi g = (if 0 \<le> g then 2 ^ nat g else 1 / 2 ^ nat (- g))"
  by (simp add: power_int_def field_simps)


lemma two_powi_add: "(2::rat) powi (a + b) = 2 powi a * 2 powi b"
  by (simp add: power_int_add)

lemma two_powi_mono: "a \<le> b \<Longrightarrow> (2::rat) powi a \<le> 2 powi b"
  by (simp add: power_int_increasing)

lemma two_powi_strict_mono: "a < b \<Longrightarrow> (2::rat) powi a < 2 powi b"
  by (simp add: power_int_strict_increasing)

lemma two_powi_le_iff: "(2::rat) powi a \<le> 2 powi b \<longleftrightarrow> a \<le> b"
  using two_powi_mono two_powi_strict_mono by (metis linorder_not_less)

lemma two_powi_less_iff: "(2::rat) powi a < 2 powi b \<longleftrightarrow> a < b"
  using two_powi_mono two_powi_strict_mono by (metis linorder_not_less)

subsection \<open>The binary logarithm of a fraction\<close>

lemma floor_log2_bounds:
  assumes "0 < num" and "0 < den"
  shows "2 powi floor_log2 num den \<le> (of_int num :: rat) / of_int den"
    and "(of_int num :: rat) / of_int den < 2 powi (floor_log2 num den + 1)"
proof -
  let ?q = "(of_int num :: rat) / of_int den"
  let ?g = "bitlen num - bitlen den"
  have dpos: "(0::rat) < of_int den" using assms by simp
  from bitlen_bounds[OF assms(1)] have n: "2 ^ nat (bitlen num - 1) \<le> num" "num < 2 ^ nat (bitlen num)"
    by simp_all
  from bitlen_bounds[OF assms(2)] have d: "2 ^ nat (bitlen den - 1) \<le> den" "den < 2 ^ nat (bitlen den)"
    by simp_all
  have bn: "1 \<le> bitlen num" using assms(1) by (simp add: bitlen_alt_def)
  have bd: "1 \<le> bitlen den" using assms(2) by (simp add: bitlen_alt_def)
  have nr: "(2::rat) powi (bitlen num - 1) \<le> of_int num" "(of_int num :: rat) < 2 powi bitlen num"
  proof -
    have "(of_int (2 ^ nat (bitlen num - 1)) :: rat) \<le> of_int num" using n(1) by (simp only: of_int_le_iff)
    then show "(2::rat) powi (bitlen num - 1) \<le> of_int num" using bn by (simp add: two_powi)
    have "(of_int num :: rat) < of_int (2 ^ nat (bitlen num))" using n(2) by (simp only: of_int_less_iff)
    then show "(of_int num :: rat) < 2 powi bitlen num" using bn by (simp add: two_powi)
  qed
  have dr: "(2::rat) powi (bitlen den - 1) \<le> of_int den" "(of_int den :: rat) < 2 powi bitlen den"
  proof -
    have "(of_int (2 ^ nat (bitlen den - 1)) :: rat) \<le> of_int den" using d(1) by (simp only: of_int_le_iff)
    then show "(2::rat) powi (bitlen den - 1) \<le> of_int den" using bd by (simp add: two_powi)
    have "(of_int den :: rat) < of_int (2 ^ nat (bitlen den))" using d(2) by (simp only: of_int_less_iff)
    then show "(of_int den :: rat) < 2 powi bitlen den" using bd by (simp add: two_powi)
  qed
  have up: "?q < 2 powi (?g + 1)"
  proof -
    have "of_int num < (2::rat) powi (?g + 1) * 2 powi (bitlen den - 1)"
      using nr(2) by (simp add: two_powi_add[symmetric])
    also have "\<dots> \<le> 2 powi (?g + 1) * of_int den"
      using dr(1) by (simp add: mult_left_mono)
    finally show ?thesis using dpos by (simp add: field_simps)
  qed
  have lo: "2 powi (?g - 1) < ?q"
  proof -
    have "(2::rat) powi (?g - 1) * of_int den < 2 powi (?g - 1) * 2 powi bitlen den"
      using dr(2) by (simp add: mult_strict_left_mono)
    also have "\<dots> = 2 powi (bitlen num - 1)" by (simp add: two_powi_add[symmetric])
    also have "\<dots> \<le> of_int num" by (rule nr(1))
    finally show ?thesis using dpos by (simp add: field_simps)
  qed
  have test: "(if 0 \<le> ?g then den * 2 ^ nat ?g \<le> num else den \<le> num * 2 ^ nat (- ?g))
                \<longleftrightarrow> 2 powi ?g \<le> ?q"
  proof (cases "0 \<le> ?g")
    case True
    have "den * 2 ^ nat ?g \<le> num \<longleftrightarrow> (of_int (den * 2 ^ nat ?g) :: rat) \<le> of_int num"
      by (simp only: of_int_le_iff)
    also have "\<dots> \<longleftrightarrow> 2 powi ?g \<le> ?q"
      using True dpos by (simp add: two_powi field_simps)
    finally show ?thesis using True by simp
  next
    case False
    have "den \<le> num * 2 ^ nat (- ?g) \<longleftrightarrow> (of_int den :: rat) \<le> of_int (num * 2 ^ nat (- ?g))"
      by (simp only: of_int_le_iff)
    also have "\<dots> \<longleftrightarrow> 2 powi ?g \<le> ?q"
      using False dpos by (simp add: two_powi field_simps)
    finally show ?thesis using False by simp
  qed
  show "2 powi floor_log2 num den \<le> ?q"
    using test lo by (auto simp: floor_log2_def Let_def)
  show "?q < 2 powi (floor_log2 num den + 1)"
  proof (cases "2 powi ?g \<le> ?q")
    case True
    then show ?thesis using test up by (auto simp: floor_log2_def Let_def)
  next
    case False
    then show ?thesis using test by (auto simp: floor_log2_def Let_def)
  qed
qed

lemma floor_log2_unique:
  assumes "0 < num" and "0 < den"
    and "2 powi g \<le> (of_int num :: rat) / of_int den"
    and "(of_int num :: rat) / of_int den < 2 powi (g + 1)"
  shows "floor_log2 num den = g"
proof -
  from floor_log2_bounds[OF assms(1,2)] assms(3,4)
  have "(2::rat) powi floor_log2 num den < 2 powi (g + 1)" "(2::rat) powi g < 2 powi (floor_log2 num den + 1)"
    by linarith+
  then show ?thesis by (simp add: two_powi_less_iff)
qed

subsection \<open>The nearest double\<close>

lemma div_powi_less: "q < 2 powi (sh + k) \<Longrightarrow> q / 2 powi sh < (2::rat) powi k"
  by (simp add: two_powi_add pos_divide_less_eq mult.commute)

lemma div_powi_le: "2 powi (sh + k) \<le> q \<Longrightarrow> (2::rat) powi k \<le> q / 2 powi sh"
  by (simp add: two_powi_add pos_le_divide_eq mult.commute)

lemma nearest_double_eq:
  assumes "0 < num" and "0 < den"
  shows "nearest_double neg num den =
     (let sh = max (floor_log2 num den) (- 1022) - 52;
          M = round_half_even (of_int num / of_int den / 2 powi sh)
      in if M = 2 ^ 53
         then (if 971 < sh + 1 then Infinity neg else Finite neg (2 ^ 52) (sh + 1))
         else if 971 < sh then Infinity neg else Finite neg M sh)"
proof -
  define sh where "sh = max (floor_log2 num den) (- 1022) - 52"
  have m: "(if 0 \<le> sh then round_half_even_div num (den * 2 ^ nat sh)
            else round_half_even_div (num * 2 ^ nat (- sh)) den)
           = round_half_even (of_int num / of_int den / 2 powi sh)"
  proof (cases "0 \<le> sh")
    case True
    have "0 < den * 2 ^ nat sh" using assms(2) by simp
    from round_half_even_div_eq[OF this, of num] True show ?thesis
      by (simp add: two_powi)
  next
    case False
    from round_half_even_div_eq[OF assms(2), of "num * 2 ^ nat (- sh)"] False show ?thesis
      by (simp add: two_powi)
  qed
  show ?thesis
    using assms(1) unfolding nearest_double_def Let_def sh_def[symmetric] m by simp
qed

text \<open>The mantissa before the carry: at most \<open>2\<^sup>5\<^sup>3\<close>, and at least \<open>2\<^sup>5\<^sup>2\<close> in the normal range.\<close>

lemma mantissa_bounds:
  assumes "0 < num" and "0 < den"
  defines "sh \<equiv> max (floor_log2 num den) (- 1022) - 52"
  defines "M \<equiv> round_half_even ((of_int num :: rat) / of_int den / 2 powi sh)"
  shows "0 \<le> M" and "M \<le> 2 ^ 53" and "- 1022 \<le> floor_log2 num den \<Longrightarrow> 2 ^ 52 \<le> M"
    and "\<bar>(of_int M :: rat) * 2 powi sh - of_int num / of_int den\<bar> \<le> 2 powi (sh - 1)"
proof -
  let ?q = "(of_int num :: rat) / of_int den"
  let ?x = "?q / 2 powi sh"
  have qpos: "0 < ?q" using assms(1,2) by simp
  have xpos: "0 < ?x" using assms(1,2) by (simp add: zero_less_divide_iff zero_less_mult_iff)
  from floor_log2_bounds[OF assms(1,2)]
  have g: "2 powi floor_log2 num den \<le> ?q" "?q < 2 powi (floor_log2 num den + 1)" by simp_all
  have rb: "\<bar>of_int M - ?x\<bar> \<le> 1 / 2" unfolding M_def by (rule round_half_even_bounds)
  show "0 \<le> M" unfolding M_def using xpos by (intro round_half_even_nonneg) simp
  have "?q < 2 powi (sh + 53)"
  proof -
    have "floor_log2 num den + 1 \<le> sh + 53" by (simp add: sh_def)
    then have "(2::rat) powi (floor_log2 num den + 1) \<le> 2 powi (sh + 53)" by (rule two_powi_mono)
    with g(2) show ?thesis by simp
  qed
  then have "?x < 2 powi 53" by (rule div_powi_less)
  then have "?x < 2 ^ 53" by simp
  with rb have "(of_int M :: rat) < 2 ^ 53 + 1" by linarith
  then have "(of_int M :: rat) < of_int (2 ^ 53 + 1)" by simp
  then have "M < 2 ^ 53 + 1" by (simp only: of_int_less_iff)
  then show "M \<le> 2 ^ 53" by simp
  show "2 ^ 52 \<le> M" if n: "- 1022 \<le> floor_log2 num den"
  proof -
    have s: "sh + 52 = floor_log2 num den" using n by (simp add: sh_def)
    have "(2::rat) powi (sh + 52) \<le> ?q" using g(1) s by simp
    then have "(2::rat) powi 52 \<le> ?x" by (rule div_powi_le)
    then have "(2::rat) ^ 52 \<le> ?x" by simp
    with rb have "(2::rat) ^ 52 - 1 < of_int M" by linarith
    then have "(of_int (2 ^ 52 - 1) :: rat) < of_int M" by simp
    then have "2 ^ 52 - 1 < M" by (simp only: of_int_less_iff)
    then show ?thesis by simp
  qed
  have "\<bar>(of_int M :: rat) * 2 powi sh - ?q\<bar> = \<bar>of_int M - ?x\<bar> * 2 powi sh"
  proof -
    have "of_int M * 2 powi sh - ?q = (of_int M - ?x) * 2 powi sh"
      by (simp add: field_simps)
    then show ?thesis by (simp add: abs_mult)
  qed
  also have "\<dots> \<le> 1 / 2 * 2 powi sh" using rb by (intro mult_right_mono) simp_all
  also have "\<dots> = 2 powi (sh - 1)"
    using two_powi_add[of "sh - 1" 1] by simp
  finally show "\<bar>of_int M * 2 powi sh - ?q\<bar> \<le> 2 powi (sh - 1)" .
qed

text \<open>The result is an infinity of the given sign or a float of the format with the
  given sign, within half a unit in the last place of the fraction.\<close>

lemma nearest_double_cases:
  assumes "0 < num" and "0 < den"
  shows "nearest_double neg num den = Infinity neg \<and> 1023 \<le> floor_log2 num den
       \<or> (\<exists>m e. nearest_double neg num den = Finite neg m e \<and> canonical (Finite neg m e)
            \<and> \<bar>(of_int m :: rat) * 2 powi e - of_int num / of_int den\<bar>
                \<le> 2 powi (max (floor_log2 num den) (- 1022) - 53))"
proof -
  define sh where "sh = max (floor_log2 num den) (- 1022) - 52"
  define M where "M = round_half_even (of_int num / of_int den / 2 powi sh)"
  note mb = mantissa_bounds[OF assms, folded sh_def M_def]
  let ?q = "(of_int num :: rat) / of_int den"
  have nd: "nearest_double neg num den =
      (if M = 2 ^ 53
         then (if 971 < sh + 1 then Infinity neg else Finite neg (2 ^ 52) (sh + 1))
         else if 971 < sh then Infinity neg else Finite neg M sh)"
    by (simp only: nearest_double_eq[OF assms] Let_def sh_def M_def)
  have shlo: "- 1074 \<le> sh" by (simp add: sh_def)
  have err: "2 powi (sh - 1) = (2::rat) powi (max (floor_log2 num den) (- 1022) - 53)"
    by (simp add: sh_def)
  have sub: "M \<le> 2 ^ 52" if "floor_log2 num den < - 1022"
  proof -
    from that have sh: "sh = - 1074" by (simp add: sh_def)
    have "?q < 2 powi (floor_log2 num den + 1)" by (rule floor_log2_bounds[OF assms])
    also have "\<dots> \<le> 2 powi (sh + 52)" using that sh by (intro two_powi_mono) simp
    finally have "?q / 2 powi sh < 2 powi 52" by (rule div_powi_less)
    then have "?q / 2 powi sh < 2 ^ 52" by simp
    moreover have "\<bar>of_int M - ?q / 2 powi sh\<bar> \<le> 1 / 2"
      unfolding M_def by (rule round_half_even_bounds)
    ultimately have "(of_int M :: rat) < 2 ^ 52 + 1" by linarith
    then have "(of_int M :: rat) < of_int (2 ^ 52 + 1)" by simp
    then have "M < 2 ^ 52 + 1" by (simp only: of_int_less_iff)
    then show ?thesis by simp
  qed
  show ?thesis
  proof (cases "M = 2 ^ 53")
    case True
    have n: "- 1022 \<le> floor_log2 num den"
    proof (rule ccontr)
      assume "\<not> - 1022 \<le> floor_log2 num den"
      then have "M \<le> 2 ^ 52" by (intro sub) simp
      with True show False by simp
    qed
    then have shg: "sh = floor_log2 num den - 52" by (simp add: sh_def)
    show ?thesis
    proof (cases "971 < sh + 1")
      case i: True
      with True nd shg show ?thesis by simp
    next
      case False
      have v: "(of_int (2 ^ 52) :: rat) * 2 powi (sh + 1) = of_int M * 2 powi sh"
        using True by (simp add: two_powi_add)
      have "nearest_double neg num den = Finite neg (2 ^ 52) (sh + 1)"
        using nd True False by simp
      moreover have "canonical (Finite neg (2 ^ 52) (sh + 1))"
        using False shlo by simp
      moreover have "\<bar>(of_int (2 ^ 52) :: rat) * 2 powi (sh + 1) - ?q\<bar>
                \<le> 2 powi (max (floor_log2 num den) (- 1022) - 53)"
        unfolding v err[symmetric] by (rule mb(4))
      ultimately show ?thesis by blast
    qed
  next
    case False
    with mb(2) have M53: "M < 2 ^ 53" by simp
    show ?thesis
    proof (cases "971 < sh")
      case True
      then have "1023 \<le> floor_log2 num den" by (simp add: sh_def split: if_splits)
      with nd False True show ?thesis by simp
    next
      case s: False
      have "nearest_double neg num den = Finite neg M sh" using nd False s by simp
      moreover have "canonical (Finite neg M sh)"
      proof (cases "- 1022 \<le> floor_log2 num den")
        case True
        from mb(3)[OF True] M53 shlo s show ?thesis by simp
      next
        case n: False
        then have "sh = - 1074" by (simp add: sh_def)
        moreover from n have "M \<le> 2 ^ 52" by (intro sub) simp
        ultimately show ?thesis using mb(1) by auto
      qed
      moreover have "\<bar>(of_int M :: rat) * 2 powi sh - ?q\<bar>
                \<le> 2 powi (max (floor_log2 num den) (- 1022) - 53)"
        unfolding err[symmetric] by (rule mb(4))
      ultimately show ?thesis by blast
    qed
  qed
qed

lemma nearest_double_zero [simp]: "nearest_double neg 0 den = Finite neg 0 (- 1074)"
  by (simp add: nearest_double_def)


subsection \<open>Floats read from strings are floats of the format\<close>







subsection \<open>Rounding a float to one decimal digit\<close>

lemma tenths_nonneg: "0 \<le> m \<Longrightarrow> 0 \<le> tenths m e"
  unfolding tenths_def by (intro round_half_even_nonneg) simp

lemma round_half_even_zero [simp]: "round_half_even 0 = 0"
  using round_half_even_of_int[of 0] by simp

lemma tenths_zero [simp]: "tenths 0 e = 0"
  by (simp add: tenths_def)

lemma nearest_tenth_Finite:
  assumes "0 \<le> m"
  shows "nearest_tenth (Finite neg m e) = (if neg then - tenths m e else tenths m e)"
proof (cases "m = 0")
  case True
  then show ?thesis by (simp add: nearest_tenth_def)
next
  case False
  with assms have "0 < m" by simp
  then have pos: "(0::rat) < of_int m * 2 powi e" by simp
  then have npos: "\<not> of_int m * 2 powi e < (0::rat)" by linarith
  show ?thesis
  proof (cases neg)
    case True
    then have "float_value (Finite neg m e) = - (of_int m * 2 powi e)" by simp
    with pos True show ?thesis by (simp add: nearest_tenth_def tenths_def)
  next
    case False
    then have "float_value (Finite neg m e) = of_int m * 2 powi e" by simp
    with npos False show ?thesis by (simp add: nearest_tenth_def tenths_def)
  qed
qed

lemma nearest_tenth_nearest: "\<bar>of_int (nearest_tenth x) - 10 * float_value x\<bar> \<le> 1 / 2"
proof -
  have a: "\<bar>of_int (round_half_even (float_value x * 10)) - float_value x * 10\<bar> \<le> 1 / 2"
    by (rule round_half_even_bounds)
  have b: "\<bar>of_int (round_half_even (- float_value x * 10)) - (- float_value x * 10)\<bar> \<le> 1 / 2"
    by (rule round_half_even_bounds)
  show ?thesis
  proof (cases "float_value x < 0")
    case True
    then have "nearest_tenth x = - round_half_even (- float_value x * 10)"
      by (simp add: nearest_tenth_def)
    moreover define r where "r = round_half_even (- float_value x * 10)"
    ultimately have "of_int (nearest_tenth x) - 10 * float_value x
        = - ((of_int r :: rat) - (- float_value x * 10))" by simp
    then have "\<bar>of_int (nearest_tenth x) - 10 * float_value x\<bar>
        = \<bar>(of_int r :: rat) - (- float_value x * 10)\<bar>" by (simp only: abs_minus_cancel)
    with b show ?thesis by (simp add: r_def)
  next
    case False
    then have "nearest_tenth x = round_half_even (float_value x * 10)"
      by (simp add: nearest_tenth_def)
    with a show ?thesis by (simp add: mult.commute)
  qed
qed

lemma nearest_tenth_unique:
  assumes "\<bar>of_int n - 10 * float_value x\<bar> < 1 / 2"
  shows "nearest_tenth x = n"
proof (cases "float_value x < 0")
  case True
  have "(of_int (- n) :: rat) - (- float_value x * 10) = - (of_int n - 10 * float_value x)"
    by simp
  then have "\<bar>(of_int (- n) :: rat) - (- float_value x * 10)\<bar>
      = \<bar>of_int n - 10 * float_value x\<bar>" by (simp only: abs_minus_cancel)
  with assms have "\<bar>(of_int (- n) :: rat) - (- float_value x * 10)\<bar> < 1 / 2" by (simp only:)
  then have "round_half_even (- float_value x * 10) = - n" by (rule round_half_even_unique)
  with True show ?thesis by (simp add: nearest_tenth_def)
next
  case False
  from assms have "\<bar>(of_int n :: rat) - float_value x * 10\<bar> < 1 / 2"
    by (simp only: mult.commute[of 10])
  then have "round_half_even (float_value x * 10) = n" by (rule round_half_even_unique)
  with False show ?thesis by (simp add: nearest_tenth_def)
qed

lemma py_round1_negative_exponent:
  assumes "e < 0"
  shows "py_round1 (Finite neg m e) = nearest_double neg (tenths m e) 10"
proof -
  have "(0::int) < 2 ^ nat (- e)" by simp
  from round_half_even_div_eq[OF this, of "m * 10"]
  have "round_half_even_div (m * 10) (2 ^ nat (- e)) = tenths m e"
    using assms by (simp add: tenths_def two_powi field_simps)
  with assms show ?thesis by simp
qed

lemma canonical_mantissa: "canonical (Finite neg m e) \<Longrightarrow> 0 \<le> m \<and> m < 2 ^ 53"
  by (simp, linarith)

lemma canonical_normal:
  "canonical (Finite neg m e) \<Longrightarrow> e \<noteq> - 1074 \<Longrightarrow> 2 ^ 52 \<le> m \<and> - 1074 \<le> e \<and> e \<le> 971"
  by auto

lemma nearest_double_normal:
  assumes "0 < num" and "0 < den"
    and lo: "2 powi (52 + e) \<le> (of_int num :: rat) / of_int den"
    and hi: "(of_int num :: rat) / of_int den < 2 powi (53 + e)"
    and e: "- 1074 \<le> e" "e \<le> 971"
    and m: "\<bar>of_int m - (of_int num :: rat) / of_int den / 2 powi e\<bar> < 1 / 2" "m \<noteq> 2 ^ 53"
  shows "nearest_double neg num den = Finite neg m e"
proof -
  from hi have "(of_int num :: rat) / of_int den < 2 powi ((52 + e) + 1)" by simp
  from floor_log2_unique[OF assms(1,2) lo this] have g: "floor_log2 num den = 52 + e" .
  from e have sh: "max (52 + e) (- 1022) - 52 = e" by simp
  from round_half_even_unique[OF m(1)]
  have M: "round_half_even (of_int num / (of_int den * 2 powi e)) = m" by simp
  show ?thesis
    using nearest_double_eq[OF assms(1,2), of neg] e m(2)
    by (simp add: g sh M Let_def)
qed

lemma py_round1_boundary_closed:
  "py_round1 (Finite True (2 ^ 52) (- 1)) = Finite True (2 ^ 52) (- 1)"
  "py_round1 (Finite True (2 ^ 52) (- 2)) = Finite True (2 ^ 52) (- 2)"
  "py_round1 (Finite True (2 ^ 52) (- 3)) = Finite True (2 ^ 52) (- 3)"
  "py_round1 (Finite False (2 ^ 52) (- 1)) = Finite False (2 ^ 52) (- 1)"
  "py_round1 (Finite False (2 ^ 52) (- 2)) = Finite False (2 ^ 52) (- 2)"
  "py_round1 (Finite False (2 ^ 52) (- 3)) = Finite False (2 ^ 52) (- 3)"
  by code_simp+

lemma py_round1_boundary:
  assumes "e = - 1 \<or> e = - 2 \<or> e = - 3"
  shows "py_round1 (Finite neg (2 ^ 52) e) = Finite neg (2 ^ 52) e"
proof (cases neg)
  case True
  with assms py_round1_boundary_closed(1-3) show ?thesis by (elim disjE) (simp_all only:)
next
  case False
  with assms py_round1_boundary_closed(4-6) show ?thesis by (elim disjE) (simp_all only:)
qed

lemma nearest_double_top_closed:
  "nearest_double True 5629499534213120 10 = Finite True (2 ^ 52) (- 3)"
  "nearest_double False 5629499534213120 10 = Finite False (2 ^ 52) (- 3)"
  by code_simp+

lemma nearest_double_top:
  "nearest_double neg 5629499534213120 10 = Finite neg (2 ^ 52) (- 3)"
  using nearest_double_top_closed by (cases neg) (simp_all only:)

lemma tenths_top: "tenths (2 ^ 52) (- 3) = 5629499534213120"
proof -
  have "(of_int (2 ^ 52) :: rat) * 2 powi (- 3) * 10 = of_int 5629499534213120"
    by (simp add: two_powi)
  then show ?thesis unfolding tenths_def by (simp only: round_half_even_of_int)
qed

lemma tenths_bounds: "\<bar>(of_int (tenths m e) :: rat) - of_int m * 2 powi e * 10\<bar> \<le> 1 / 2"
  unfolding tenths_def by (rule round_half_even_bounds)

lemma tenths_unique:
  "\<bar>(of_int n :: rat) - of_int m * 2 powi e * 10\<bar> < 1 / 2 \<Longrightarrow> tenths m e = n"
  unfolding tenths_def by (rule round_half_even_unique)

lemma two_powi_52: "(2::rat) powi 52 = 2 ^ 52"
  by (simp add: two_powi)

lemma two_powi_53: "(2::rat) powi 53 = 2 ^ 53"
  by (simp add: two_powi)

lemma nearest_double_near:
  assumes T: "0 < T" and m: "2 ^ 52 \<le> m" "m < 2 ^ 53" and e: "- 1074 \<le> e" "e \<le> 971"
    and d: "\<bar>(of_int T :: rat) / 10 / 2 powi e - of_int m\<bar> \<le> 2 / 5"
    and b: "m \<noteq> 2 ^ 52 \<or> (of_int T :: rat) / 10 / 2 powi e = of_int m"
  shows "nearest_double neg T 10 = Finite neg m e"
proof -
  define p :: rat where "p = 2 powi e"
  define r :: rat where "r = of_int T / 10 / p"
  have p: "0 < p" by (simp add: p_def)
  have q: "(of_int T :: rat) / of_int 10 = r * p" using p by (simp add: r_def)
  from d have d': "\<bar>r - of_int m\<bar> \<le> 2 / 5" by (simp add: r_def p_def)
  have lo: "2 ^ 52 \<le> r"
  proof (cases "m = 2 ^ 52")
    case True
    with b have "r = of_int m" by (simp add: r_def p_def)
    with True show ?thesis by simp
  next
    case False
    with m have "2 ^ 52 + 1 \<le> m" by simp
    then have "(of_int (2 ^ 52 + 1) :: rat) \<le> of_int m" by (simp only: of_int_le_iff)
    then have "(4503599627370497 :: rat) \<le> of_int m" by simp
    with d' have "4503599627370496 \<le> r" by linarith
    then show ?thesis by simp
  qed
  have hi: "r < 2 ^ 53"
  proof -
    from m have "m \<le> 2 ^ 53 - 1" by simp
    then have "(of_int m :: rat) \<le> of_int (2 ^ 53 - 1)" by (simp only: of_int_le_iff)
    then have "(of_int m :: rat) \<le> 9007199254740991" by simp
    with d' have "r < 9007199254740992" by linarith
    then show ?thesis by simp
  qed
  have "(2::rat) powi (52 + e) = 2 ^ 52 * p" by (simp only: two_powi_add p_def two_powi_52)
  also have "\<dots> \<le> r * p" using lo p by (intro mult_right_mono) simp_all
  finally have 1: "2 powi (52 + e) \<le> (of_int T :: rat) / of_int 10" by (simp only: q)
  have "r * p < 2 ^ 53 * p" using hi p by (intro mult_strict_right_mono)
  also have "\<dots> = 2 powi (53 + e)" by (simp only: two_powi_add p_def two_powi_53)
  finally have 2: "(of_int T :: rat) / of_int 10 < 2 powi (53 + e)" by (simp only: q)
  have "(of_int T :: rat) / of_int 10 / 2 powi e = r" by (simp add: r_def p_def)
  with d' have 3: "\<bar>of_int m - (of_int T :: rat) / of_int 10 / 2 powi e\<bar> < 1 / 2"
    by (simp only: abs_minus_commute[of "of_int m"])
  from m have 4: "m \<noteq> 2 ^ 53" by simp
  show ?thesis by (rule nearest_double_normal[OF T _ 1 2 e 3 4]) simp
qed

lemma tenths_exact:
  assumes "0 \<le> e"
  shows "tenths m e = m * 2 ^ nat e * 10"
proof -
  from assms have "(of_int m :: rat) * 2 powi e * 10 = of_int (m * 2 ^ nat e * 10)"
    by (simp add: two_powi)
  then show ?thesis unfolding tenths_def by (simp only: round_half_even_of_int)
qed

lemma nearest_double_large:
  assumes c: "canonical (Finite neg m e)" and e: "0 \<le> e"
  shows "nearest_double neg (tenths m e) 10 = Finite neg m e"
proof -
  from c e have m: "2 ^ 52 \<le> m" "m < 2 ^ 53" and e': "- 1074 \<le> e" "e \<le> 971" by auto
  have T: "tenths m e = m * 2 ^ nat e * 10" by (rule tenths_exact[OF e])
  from m have "0 < m" by simp
  then have Tpos: "0 < tenths m e" unfolding T by simp
  have x: "(of_int (tenths m e) :: rat) / 10 / 2 powi e = of_int m"
    using e by (simp add: T two_powi)
  show ?thesis
    by (rule nearest_double_near[OF Tpos m e']) (simp_all only: x, simp_all)
qed

lemma nearest_double_small:
  assumes T: "0 < T" "T < 5629499534213120"
  shows "\<exists>m' e'. nearest_double neg T 10 = Finite neg m' e' \<and> canonical (Finite neg m' e')
            \<and> tenths m' e' = T"
proof -
  define g where "g = floor_log2 T 10"
  have "2 powi g \<le> (of_int T :: rat) / of_int 10"
    unfolding g_def by (rule floor_log2_bounds(1)[OF T(1)]) simp
  also have "(of_int T :: rat) / of_int 10 < 2 powi 49"
  proof -
    from T(2) have "(of_int T :: rat) < of_int 5629499534213120" by (simp only: of_int_less_iff)
    then show ?thesis by (simp add: two_powi)
  qed
  finally have "g < 49" by (simp only: two_powi_less_iff)
  then have g: "max g (- 1022) - 53 \<le> - 5" by simp
  from nearest_double_cases[OF T(1), of 10 neg] \<open>g < 49\<close>
  obtain m' e' where r: "nearest_double neg T 10 = Finite neg m' e'"
      and c: "canonical (Finite neg m' e')"
      and d: "\<bar>(of_int m' :: rat) * 2 powi e' - of_int T / of_int 10\<bar>
                \<le> 2 powi (max g (- 1022) - 53)"
    unfolding g_def[symmetric] by auto
  have "(2::rat) powi (max g (- 1022) - 53) \<le> 2 powi (- 5)" using g by (rule two_powi_mono)
  also have "\<dots> = 1 / 32" by (simp add: two_powi)
  finally have "\<bar>(of_int m' :: rat) * 2 powi e' - of_int T / 10\<bar> \<le> 1 / 32" using d by simp
  then have "\<bar>(of_int T :: rat) - of_int m' * 2 powi e' * 10\<bar> < 1 / 2" by linarith
  then have "tenths m' e' = T" by (rule tenths_unique)
  with r c show ?thesis by blast
qed

lemma nearest_double_tenths:
  assumes c: "canonical (Finite neg m e)"
  shows "\<exists>m' e'. nearest_double neg (tenths m e) 10 = Finite neg m' e'
            \<and> canonical (Finite neg m' e') \<and> tenths m' e' = tenths m e"
proof -
  define T where "T = tenths m e"
  from c have m: "0 \<le> m" "m < 2 ^ 53" by auto
  have T0: "0 \<le> T" unfolding T_def by (rule tenths_nonneg[OF m(1)])
  have b: "\<bar>(of_int T :: rat) - of_int m * 2 powi e * 10\<bar> \<le> 1 / 2"
    unfolding T_def by (rule tenths_bounds)
  consider "0 \<le> e" | "T = 0" | "0 < T" "e \<le> - 4" | "0 < T" "- 4 < e" "e < 0"
    using T0 by linarith
  then have "\<exists>m' e'. nearest_double neg T 10 = Finite neg m' e'
            \<and> canonical (Finite neg m' e') \<and> tenths m' e' = T"
  proof cases
    case 1
    from nearest_double_large[OF c 1] c show ?thesis unfolding T_def by blast
  next
    case 2
    have "canonical (Finite neg 0 (- 1074))" by simp
    with 2 show ?thesis by simp
  next
    case 3
    have "(2::rat) powi e \<le> 2 powi (- 4)" using 3(2) by (rule two_powi_mono)
    also have "\<dots> = 1 / 16" by (simp add: two_powi)
    finally have "(of_int m :: rat) * 2 powi e \<le> of_int m * (1 / 16)"
      using m(1) by (intro mult_left_mono) simp_all
    moreover from m(2) have "(of_int m :: rat) < of_int (2 ^ 53)" by (simp only: of_int_less_iff)
    then have "(of_int m :: rat) < 9007199254740992" by simp
    ultimately have "(of_int T :: rat) < 5629499534213120 + 1" using b by linarith
    then have "(of_int T :: rat) < of_int (5629499534213120 + 1)" by simp
    then have "T < 5629499534213120 + 1" by (simp only: of_int_less_iff)
    then consider "T = 5629499534213120" | "T < 5629499534213120" by linarith
    then show ?thesis
    proof cases
      case 1
      have "canonical (Finite neg (2 ^ 52) (- 3))" by simp
      with 1 nearest_double_top[of neg] tenths_top show ?thesis by (simp only:) blast
    next
      case 2
      with 3(1) show ?thesis by (rule nearest_double_small)
    qed
  next
    case 4
    from 4 c have n: "2 ^ 52 \<le> m" "- 1074 \<le> e" "e \<le> 971" by auto
    show ?thesis
    proof (cases "m = 2 ^ 52")
      case True
      from 4 have "e = - 1 \<or> e = - 2 \<or> e = - 3" by linarith
      from py_round1_boundary[OF this, of neg] have "py_round1 (Finite neg m e) = Finite neg m e"
        by (simp only: True)
      with 4(3) have "nearest_double neg T 10 = Finite neg m e"
        by (simp only: py_round1_negative_exponent T_def)
      with c show ?thesis unfolding T_def by blast
    next
      case False
      define p :: rat where "p = 2 powi e"
      have p: "0 < p" by (simp add: p_def)
      have "(2::rat) powi (- 3) \<le> 2 powi e" using 4(2) by (intro two_powi_mono) simp
      then have p8: "1 / 8 \<le> p" by (simp add: p_def two_powi)
      have "(of_int T :: rat) / 10 / p - of_int m = (of_int T - of_int m * p * 10) / (10 * p)"
        using p by (simp add: field_simps)
      then have "\<bar>(of_int T :: rat) / 10 / p - of_int m\<bar>
          = \<bar>of_int T - of_int m * p * 10\<bar> / (10 * p)"
        using p by (simp add: abs_mult)
      also have "\<dots> \<le> (1 / 2) / (10 * p)"
        using b p by (intro divide_right_mono) (simp_all add: p_def)
      also have "\<dots> \<le> (1 / 2) / (10 * (1 / 8))"
        using p8 by (intro divide_left_mono) simp_all
      finally have d: "\<bar>(of_int T :: rat) / 10 / 2 powi e - of_int m\<bar> \<le> 2 / 5"
        by (simp add: p_def)
      from nearest_double_near[OF 4(1) n(1) m(2) n(2,3) d] False
      have "nearest_double neg T 10 = Finite neg m e" by simp
      with c show ?thesis unfolding T_def by blast
    qed
  qed
  then show ?thesis unfolding T_def .
qed

lemma py_round1_eq_nearest:
  assumes "canonical (Finite neg m e)"
  shows "py_round1 (Finite neg m e) = nearest_double neg (tenths m e) 10"
proof (cases "e < 0")
  case True
  then show ?thesis by (rule py_round1_negative_exponent)
next
  case False
  then have "0 \<le> e" by simp
  from nearest_double_large[OF assms this] False show ?thesis by simp
qed

text \<open>\<^verbatim>\<open>round(x, 1)\<close> of a finite float is a finite float with the same nearest tenth, and
  two finite floats have equal \<^verbatim>\<open>round(\<cdot>, 1)\<close> exactly when their nearest tenths are equal.\<close>

lemma py_round1_nearest_tenth:
  assumes "canonical x" and "is_finite x"
  shows "is_finite (py_round1 x) \<and> nearest_tenth (py_round1 x) = nearest_tenth x"
proof -
  from assms(2) obtain neg m e where x: "x = Finite neg m e" by (cases x) auto
  from assms(1) have c: "canonical (Finite neg m e)" by (simp only: x)
  from nearest_double_tenths[OF c] obtain m' e' where
    r: "nearest_double neg (tenths m e) 10 = Finite neg m' e'"
    and c': "canonical (Finite neg m' e')" and t: "tenths m' e' = tenths m e" by blast
  from c have m: "0 \<le> m" by auto
  from c' have m': "0 \<le> m'" by auto
  have "py_round1 x = Finite neg m' e'" by (simp only: x py_round1_eq_nearest[OF c] r)
  then show ?thesis
    by (simp only: x nearest_tenth_Finite[OF m] nearest_tenth_Finite[OF m'] t is_finite.simps)
qed


section \<open>The coordinate comparison\<close>

lemma py_float_No_Info: "py_float No_Info = None"
  by code_simp

text \<open>Whenever one of the four strings is the placeholder, the comparison raises.\<close>

lemma lat_lng_match_sentinel:
  "fst a = No_Info \<or> snd a = No_Info \<or> fst b = No_Info \<or> snd b = No_Info
   \<Longrightarrow> lat_lng_match a b = Inl ValueError"
  by (auto simp: lat_lng_match_def py_float_No_Info split: option.splits)

text \<open>
  Claim C2 (the comparison returns false and never throws when a side is the
  \<^verbatim>\<open>'No Info'\<close> placeholder) does not hold of the code: \<^verbatim>\<open>float('No Info')\<close> raises
  \<^verbatim>\<open>ValueError\<close>, whichever side the placeholder is on. The pair for \<open>link_bare\<close> is the
  placeholder pair.
\<close>

theorem lat_lng_match_No_Info_raises:
  "lat_lng_match (''51.1801'', ''71.446'') (''No Info'', ''No Info'') = Inl ValueError
   \<and> lat_lng_match (''No Info'', ''No Info'') (''51.18'', ''71.44'') = Inl ValueError
   \<and> extract_lat_lang_from_url link_bare = (''No Info'', ''No Info'')"
  by code_simp



text \<open>
  The rounding is that of binary64 numbers, not of decimal numerals:
  \<^verbatim>\<open>float('71.45')\<close> is the double just above 71.45, its nearest tenth is 71.5, while
  that of \<^verbatim>\<open>float('71.4460')\<close> is 71.4. A place at (51.18, 71.45) is therefore not
  matched with the reference (51.1801, 71.4460). The floats 0.25 and 0.75 are ties: their
  nearest tenths are 0.2 and 0.8.
\<close>

lemma round_of_71_45:
  "map_option py_round1 (py_float ''71.45'') = py_float ''71.5''
   \<and> map_option py_round1 (py_float ''71.4460'') = py_float ''71.4''
   \<and> lat_lng_match (''51.1801'', ''71.4460'') (''51.18'', ''71.45'') = Inr False"
  by code_simp

lemma nearest_tenth_examples:
  "map_option nearest_tenth (py_float ''71.45'') = Some 715
   \<and> map_option nearest_tenth (py_float ''71.4460'') = Some 714
   \<and> map_option nearest_tenth (py_float ''0.25'') = Some 2
   \<and> map_option nearest_tenth (py_float ''0.75'') = Some 8
   \<and> map_option nearest_tenth (py_float ''-0.25'') = Some (- 2)
   \<and> map_option py_round1 (py_float ''0.25'') = py_float ''0.2''
   \<and> map_option py_round1 (py_float ''0.75'') = py_float ''0.8''"
  by code_simp

section \<open>Dumping the accepted records\<close>

lemma file_rows_writerow: "file_rows (writerow name r s) name = file_rows s name @ [r]"
  by (simp add: writerow_def file_rows_def)




section \<open>Discovery\<close>

subsection \<open>Differences of clock readings\<close>









lemma slept_append: "slept (h @ h') = slept h + slept h'"
  by (induction h rule: slept.induct) auto

lemma wheels_append: "wheels (h @ h') = wheels h + wheels h'"
  by (induction h rule: wheels.induct) auto



lemma clock_ok_slow: "clock_ok slow_world"
  by (simp add: clock_ok_def slow_world_def slept_append wheels_append)







lemma hover_frame:
  "hover_search_results w s = (r, s') \<Longrightarrow>
     entries s' = entries s \<and> url s' = url s \<and> page s' = page s \<and> files s' = files s"
  by (auto simp: hover_search_results_def call_def Let_def split: if_splits)

lemma get_search_results_urls_frame:
  assumes "get_search_results_urls w s = Some (r, s')"
  shows "entries s' = entries s \<and> url s' = url s \<and> page s' = page s \<and> files s' = files s"
proof (cases "hover_search_results w s")
  case (Pair r1 s1)
  from hover_frame[OF Pair] assms Pair show ?thesis
    by (cases r1) (auto simp: get_search_results_urls_def Let_def split: option.splits)
qed

lemma search_frame:
  assumes "search w s = Some (r, s')"
  shows "entries s' = entries s \<and> url s' = url s \<and> page s' = page s \<and> files s' = files s"
proof (cases "page s")
  case False
  with assms show ?thesis by (simp add: search_def)
next
  case True
  with assms obtain r1 where "get_search_results_urls w (call (Goto (url s)) s) = Some (r1, s')"
    by (auto simp: search_def split: option.splits sum.splits)
  from get_search_results_urls_frame[OF this] show ?thesis by (simp add: call_def)
qed





text \<open>The hypothesis \<open>clock_ok\<close> cannot be dropped for the termination. On a clock
  that stands still, where the pause does not advance it, the loop never ends when the
  marker never appears: \<^verbatim>\<open>_get_search_results_urls\<close> and \<^verbatim>\<open>run\<close> do not return.\<close>

lemma scroll_loop_frozen:
  assumes "scroll_loop w start h = Some h'"
  shows "\<not> (w = frozen_world \<and> start = double_of_rat 0)"
  using assms
proof (induction rule: scroll_loop.raw_induct[rotated 1, consumes 1])
  case (1 scroll_loop w start h h')
  show ?case
  proof
    assume a: "w = frozen_world \<and> start = double_of_rat 0"
    have t: "time_time frozen_world hh = double_of_rat 0" for hh
      by (simp add: time_time_def frozen_world_def)
    have n: "\<not> py_gt_int (py_sub (double_of_rat 0) (double_of_rat 0)) SCROLL_TIME_DURATION_S"
      by code_simp
    have e: "\<not> end_locator frozen_world hh" for hh
      by (simp add: frozen_world_def demo_world_def)
    from 1(2) a have "scroll_loop frozen_world (double_of_rat 0)
        (h @ [MouseWheel 0 1000, Sleep SLEEP_PER_SCROLL_S, Time (double_of_rat 0),
              QuerySelector END_SELECTOR]) = Some h'"
      by (simp add: Let_def t n e)
    from 1(1)[OF this] show False by simp
  qed
qed

lemma frozen_clock_never_returns:
  "clock frozen_world [MouseWheel 0 1000, Sleep SLEEP_PER_SCROLL_S] = clock frozen_world []
   \<and> get_search_results_urls frozen_world demo_state = None
   \<and> run frozen_world demo_state = None"
proof -
  have l: "scroll_loop frozen_world (double_of_rat 0) h = None" for h
    using scroll_loop_frozen[of frozen_world "double_of_rat 0" h] by (cases "scroll_loop frozen_world (double_of_rat 0) h") auto
  have t: "time_time frozen_world hh = double_of_rat 0" for hh
    by (simp add: time_time_def frozen_world_def)
  have m: "main_pane frozen_world hh" for hh
    by (simp add: frozen_world_def demo_world_def)
  have g: "get_search_results_urls frozen_world s = None" for s
    by (simp add: get_search_results_urls_def hover_search_results_def Let_def t m l)
  have p: "page demo_state" by (simp add: demo_state_def)
  have "run frozen_world demo_state = None"
    using p by (simp add: run_def search_def g)
  moreover have "clock frozen_world [MouseWheel 0 1000, Sleep SLEEP_PER_SCROLL_S] = clock frozen_world []"
    by (simp add: frozen_world_def)
  ultimately show ?thesis using g by simp
qed

section \<open>The per-link loop of \<^verbatim>\<open>run\<close>\<close>

lemma parse_data_with_soup_shape:
  "length (parse_data_with_soup w html link) = 7
   \<and> parse_data_with_soup w html link ! 4 = link
   \<and> (parse_data_with_soup w html link ! 5, parse_data_with_soup w html link ! 6)
       = extract_lat_lang_from_url link"
  by (simp add: parse_data_with_soup_def Let_def)

lemma lat_lng_match_Inl: "lat_lng_match main place = Inl e \<Longrightarrow> e = ValueError"
  by (auto simp: lat_lng_match_def split: option.splits)

text \<open>
  The invariant of the loop. The sink grows by the rows \<open>rows\<close>, each from a link that
  matches, and the entries grow by the same rows; when \<^verbatim>\<open>writerow\<close> raises, the entries
  hold one more row, \<open>extra\<close>, that is not in the sink.
\<close>

lemma run_loop_rows:
  "run_loop w main links s = (r, s') \<Longrightarrow>
     \<exists>rows extra. entries s' = entries s @ rows @ extra
       \<and> (if r = Inl UnicodeEncodeError then (\<exists>row. extra = [row] \<and> unencodable w row)
          else extra = [])
       \<and> file_rows s' ''google_maps_leads.csv'' = file_rows s ''google_maps_leads.csv'' @ rows
       \<and> (\<forall>name. name \<noteq> ''google_maps_leads.csv'' \<longrightarrow> files s' name = files s name)
       \<and> (files s ''google_maps_leads.csv'' \<noteq> None \<longrightarrow> files s' ''google_maps_leads.csv'' \<noteq> None)
       \<and> url s' = url s \<and> page s' = page s
       \<and> subseq (map (\<lambda>row. row ! 4) rows) links
       \<and> (\<forall>row \<in> set rows. length row = 7
             \<and> (row ! 5, row ! 6) = extract_lat_lang_from_url (row ! 4)
             \<and> lat_lng_match main (row ! 5, row ! 6) = Inr True)"
proof (induction links arbitrary: s)
  case Nil
  then show ?case by (intro exI[of _ "[]"]) auto
next
  case (Cons link links)
  let ?s1 = "call Content (call (Goto link) s)"
  let ?data = "parse_data_with_soup w (page_content w (history ?s1)) link"
  have s1: "entries ?s1 = entries s" "files ?s1 = files s" "url ?s1 = url s" "page ?s1 = page s"
    "file_rows ?s1 = file_rows s"
    by (simp_all add: call_def file_rows_def fun_eq_iff)
  show ?case
  proof (cases "lat_lng_match main (extract_lat_lang_from_url link)")
    case (Inl e)
    from lat_lng_match_Inl[OF Inl] have e: "e = ValueError" .
    from Inl Cons.prems have "s' = ?s1" "r = Inl e" by (simp_all add: Let_def)
    then show ?thesis using s1 e by (intro exI[of _ "[]"]) auto
  next
    case (Inr matched)
    show ?thesis
    proof (cases matched)
      case False
      with Inr Cons.prems have "run_loop w main links ?s1 = (r, s')" by (simp add: Let_def)
      from Cons.IH[OF this] obtain rows extra where rows:
        "entries s' = entries ?s1 @ rows @ extra"
        "if r = Inl UnicodeEncodeError then (\<exists>row. extra = [row] \<and> unencodable w row)
          else extra = []"
        "file_rows s' ''google_maps_leads.csv'' = file_rows ?s1 ''google_maps_leads.csv'' @ rows"
        "\<forall>name. name \<noteq> ''google_maps_leads.csv'' \<longrightarrow> files s' name = files ?s1 name"
        "files ?s1 ''google_maps_leads.csv'' \<noteq> None \<longrightarrow> files s' ''google_maps_leads.csv'' \<noteq> None"
        "url s' = url ?s1" "page s' = page ?s1"
        "subseq (map (\<lambda>row. row ! 4) rows) links"
        "\<forall>row \<in> set rows. length row = 7
             \<and> (row ! 5, row ! 6) = extract_lat_lang_from_url (row ! 4)
             \<and> lat_lng_match main (row ! 5, row ! 6) = Inr True"
        by blast
      have 6: "subseq (map (\<lambda>row. row ! 4) rows) (link # links)"
        using rows(8) by (rule list_emb_Cons)
      show ?thesis
        apply (rule exI[of _ rows])
        apply (rule exI[of _ extra])
        using rows(1-7,9) 6 s1 by (simp only:)
    next
      case True
      define data where "data = parse_data_with_soup w (page_content w (history ?s1)) link"
      define s2 where "s2 = ?s1\<lparr>entries := entries ?s1 @ [data]\<rparr>"
      have d: "length data = 7" "data ! 4 = link"
        "(data ! 5, data ! 6) = extract_lat_lang_from_url link"
        unfolding data_def using parse_data_with_soup_shape by blast+
      show ?thesis
      proof (cases "unencodable w data")
        case refused: True
        with True Inr Cons.prems have res: "r = Inl UnicodeEncodeError" "s' = s2"
          by (simp_all add: Let_def s2_def data_def)
        have 1: "entries s' = entries s @ [] @ [data]" by (simp add: res s2_def call_def)
        have 2: "if r = Inl UnicodeEncodeError then (\<exists>row. [data] = [row] \<and> unencodable w row)
          else [data] = []" using res(1) refused by simp
        have 3: "file_rows s' ''google_maps_leads.csv'' = file_rows s ''google_maps_leads.csv'' @ []"
          by (simp add: res s2_def call_def file_rows_def)
        have 4: "\<forall>name. name \<noteq> ''google_maps_leads.csv'' \<longrightarrow> files s' name = files s name"
          "files s ''google_maps_leads.csv'' \<noteq> None \<longrightarrow> files s' ''google_maps_leads.csv'' \<noteq> None"
          "url s' = url s \<and> page s' = page s"
          by (simp_all add: res s2_def call_def)
        have 5: "subseq (map (\<lambda>row. row ! 4) []) (link # links)" by simp
        have 6: "\<forall>row \<in> set []. length row = 7
             \<and> (row ! 5, row ! 6) = extract_lat_lang_from_url (row ! 4)
             \<and> lat_lng_match main (row ! 5, row ! 6) = Inr True" by simp
        show ?thesis
          apply (rule exI[of _ "[]"])
          apply (rule exI[of _ "[data]"])
          using 1 2 3 4 5 6 by (simp only:)
      next
        case written: False
        define s3 where "s3 = writerow ''google_maps_leads.csv'' data s2"
        have s3: "entries s3 = entries s @ [data]"
          "file_rows s3 ''google_maps_leads.csv'' = file_rows s ''google_maps_leads.csv'' @ [data]"
          "\<forall>name. name \<noteq> ''google_maps_leads.csv'' \<longrightarrow> files s3 name = files s name"
          "files s3 ''google_maps_leads.csv'' \<noteq> None"
          "url s3 = url s" "page s3 = page s"
          by (simp_all add: s3_def s2_def call_def writerow_def file_rows_def)
        from True Inr written Cons.prems have "run_loop w main links s3 = (r, s')"
          by (simp add: Let_def s3_def s2_def data_def)
        from Cons.IH[OF this] obtain rows extra where rows:
          "entries s' = entries s3 @ rows @ extra"
          "if r = Inl UnicodeEncodeError then (\<exists>row. extra = [row] \<and> unencodable w row)
            else extra = []"
          "file_rows s' ''google_maps_leads.csv'' = file_rows s3 ''google_maps_leads.csv'' @ rows"
          "\<forall>name. name \<noteq> ''google_maps_leads.csv'' \<longrightarrow> files s' name = files s3 name"
          "files s3 ''google_maps_leads.csv'' \<noteq> None \<longrightarrow> files s' ''google_maps_leads.csv'' \<noteq> None"
          "url s' = url s3" "page s' = page s3"
          "subseq (map (\<lambda>row. row ! 4) rows) links"
          "\<forall>row \<in> set rows. length row = 7
               \<and> (row ! 5, row ! 6) = extract_lat_lang_from_url (row ! 4)
               \<and> lat_lng_match main (row ! 5, row ! 6) = Inr True"
          by blast
        have m: "lat_lng_match main (data ! 5, data ! 6) = Inr True"
          using Inr True d(3) by simp
        have 1: "entries s' = entries s @ (data # rows) @ extra" using rows(1) s3(1) by simp
        have 2: "file_rows s' ''google_maps_leads.csv'' = file_rows s ''google_maps_leads.csv'' @ data # rows"
          using rows(3) s3(2) by simp
        have 3: "\<forall>name. name \<noteq> ''google_maps_leads.csv'' \<longrightarrow> files s' name = files s name"
          using rows(4) s3(3) by simp
        have 4: "files s ''google_maps_leads.csv'' \<noteq> None \<longrightarrow> files s' ''google_maps_leads.csv'' \<noteq> None"
          using rows(5) s3(4) by simp
        have 5: "url s' = url s \<and> page s' = page s" using rows(6,7) s3(5,6) by simp
        have 6: "subseq (map (\<lambda>row. row ! 4) (data # rows)) (link # links)"
          using rows(8) d(2) by simp
        have 7: "\<forall>row \<in> set (data # rows). length row = 7
               \<and> (row ! 5, row ! 6) = extract_lat_lang_from_url (row ! 4)
               \<and> lat_lng_match main (row ! 5, row ! 6) = Inr True"
          using rows(9) d m by (metis insert_iff list.simps(15))
        show ?thesis
          apply (rule exI[of _ "data # rows"])
          apply (rule exI[of _ extra])
          using 1 rows(2) 2 3 4 5 6 7 by (simp only:)
      qed
    qed
  qed
qed

section \<open>The pipeline \<^verbatim>\<open>run\<close>\<close>

lemma run_unfold:
  assumes "page s" and "search w s = Some (Inr u, s1)"
    and "get_search_results_urls w s1 = Some (Inr urls, s2)"
  shows "run w s = Some (run_loop w (extract_lat_lang_from_url (url s)) urls
           (writerow ''google_maps_leads.csv'' FIELD_NAMES (open_append ''google_maps_leads.csv'' s2)))"
proof -
  have "url s2 = url s"
    using search_frame[OF assms(2)] get_search_results_urls_frame[OF assms(3)] by simp
  then have "url (writerow ''google_maps_leads.csv'' FIELD_NAMES (open_append ''google_maps_leads.csv'' s2)) = url s"
    by (simp add: writerow_def open_append_def)
  then show ?thesis using assms by (simp add: run_def Let_def)
qed

lemma get_search_results_urls_Inl:
  "get_search_results_urls w s = Some (Inl e, s') \<Longrightarrow> e = AttributeError"
  by (auto simp: get_search_results_urls_def hover_search_results_def Let_def
      split: if_splits option.splits)

lemma search_Inl:
  assumes "search w s = Some (Inl e, s')"
  shows "e = ValueError \<or> e = AttributeError"
proof (cases "page s")
  case False
  with assms show ?thesis by (simp add: search_def)
next
  case True
  with assms have "get_search_results_urls w (call (Goto (url s)) s) = Some (Inl e, s')"
    by (auto simp: search_def split: option.splits sum.splits)
  from get_search_results_urls_Inl[OF this] show ?thesis by simp
qed

text \<open>The outcomes of \<^verbatim>\<open>run\<close>: it stops before the sink is opened, with every file and
  the entries as they were, or it reaches the loop.\<close>

lemma run_cases:
  assumes "run w s = Some (r, s')"
  shows "(files s' = files s \<and> entries s' = entries s
           \<and> (r = Inl ValueError \<or> r = Inl AttributeError))
       \<or> (\<exists>s1 s2 urls. page s \<and> search w s = Some (Inr (), s1)
             \<and> get_search_results_urls w s1 = Some (Inr urls, s2)
             \<and> run_loop w (extract_lat_lang_from_url (url s)) urls
                  (writerow ''google_maps_leads.csv'' FIELD_NAMES
                     (open_append ''google_maps_leads.csv'' s2)) = (r, s'))"
proof (cases "page s")
  case False
  with assms show ?thesis by (auto simp: run_def)
next
  case True
  from assms True obtain r1 s1 where s: "search w s = Some (r1, s1)"
    by (auto simp: run_def split: option.splits)
  show ?thesis
  proof (cases r1)
    case (Inl e)
    with assms True s have "r = Inl e" "s' = s1" by (simp_all add: run_def)
    moreover from s Inl have "search w s = Some (Inl e, s1)" by simp
    from search_Inl[OF this] have "e = ValueError \<or> e = AttributeError" .
    ultimately show ?thesis using search_frame[OF s] by auto
  next
    case (Inr u)
    from assms True s Inr obtain r2 s2 where g: "get_search_results_urls w s1 = Some (r2, s2)"
      by (auto simp: run_def split: option.splits)
    show ?thesis
    proof (cases r2)
      case (Inl e)
      with assms True s Inr g have "r = Inl e" "s' = s2" by (simp_all add: run_def)
      moreover from g Inl have "get_search_results_urls w s1 = Some (Inl e, s2)" by simp
      from get_search_results_urls_Inl[OF this] have "e = AttributeError" .
      ultimately show ?thesis
        using search_frame[OF s] get_search_results_urls_frame[OF g] by simp
    next
      case urls: (Inr urls)
      have s': "search w s = Some (Inr (), s1)" using s Inr by simp
      have g': "get_search_results_urls w s1 = Some (Inr urls, s2)" using g urls by simp
      from run_unfold[OF True s' g'] assms
      have "run_loop w (extract_lat_lang_from_url (url s)) urls
                  (writerow ''google_maps_leads.csv'' FIELD_NAMES
                     (open_append ''google_maps_leads.csv'' s2)) = (r, s')" by simp
      with True s' g' show ?thesis by blast
    qed
  qed
qed

lemma sink_opened:
  "file_rows (writerow ''google_maps_leads.csv'' FIELD_NAMES (open_append ''google_maps_leads.csv'' s))
     ''google_maps_leads.csv'' = file_rows s ''google_maps_leads.csv'' @ [FIELD_NAMES]"
  "files (writerow ''google_maps_leads.csv'' FIELD_NAMES (open_append ''google_maps_leads.csv'' s))
     ''google_maps_leads.csv'' \<noteq> None"
  "name \<noteq> ''google_maps_leads.csv'' \<Longrightarrow>
     files (writerow ''google_maps_leads.csv'' FIELD_NAMES (open_append ''google_maps_leads.csv'' s)) name
       = files s name"
  "entries (writerow ''google_maps_leads.csv'' FIELD_NAMES (open_append ''google_maps_leads.csv'' s)) = entries s"
  by (simp_all add: writerow_def open_append_def file_rows_def)

lemma lat_lng_match_True:
  "lat_lng_match main place = Inr True \<Longrightarrow>
     \<exists>a b c d. py_float (fst main) = Some a \<and> py_float (snd main) = Some b
        \<and> py_float (fst place) = Some c \<and> py_float (snd place) = Some d
        \<and> py_float_eq (py_round1 a) (py_round1 c) \<and> py_float_eq (py_round1 b) (py_round1 d)"
  by (auto simp: lat_lng_match_def split: option.splits)

text \<open>
  Claim C6. Whenever \<^verbatim>\<open>run\<close> returns or raises, either it stopped before the sink was
  opened and no file was touched, or the sink holds what it held before, then the header
  row, then the data rows written in this run, and: there are at most as many data rows
  as discovered links; the links of the rows, in order, are a subsequence of the
  discovered links (at most one row per occurrence of a link); and every row has seven
  fields, carries the coordinates read from its own link, and these agree with the
  reference coordinates of \<^verbatim>\<open>self.url\<close> after rounding latitude and longitude to one
  decimal digit. A link that does not match leaves no row and no part of one.
\<close>

theorem run_writes_only_matching_rows:
  assumes "run w s = Some (r, s')"
  shows "(files s' = files s \<and> entries s' = entries s)
       \<or> (\<exists>s1 s2 urls rows. search w s = Some (Inr (), s1)
             \<and> get_search_results_urls w s1 = Some (Inr urls, s2)
             \<and> file_rows s' ''google_maps_leads.csv''
                 = file_rows s ''google_maps_leads.csv'' @ FIELD_NAMES # rows
             \<and> length rows \<le> length urls
             \<and> subseq (map (\<lambda>row. row ! 4) rows) urls
             \<and> (\<forall>row \<in> set rows. length row = 7
                   \<and> (row ! 5, row ! 6) = extract_lat_lang_from_url (row ! 4)
                   \<and> (\<exists>a b c d. py_float (fst (extract_lat_lang_from_url (url s))) = Some a
                         \<and> py_float (snd (extract_lat_lang_from_url (url s))) = Some b
                         \<and> py_float (row ! 5) = Some c \<and> py_float (row ! 6) = Some d
                         \<and> py_float_eq (py_round1 a) (py_round1 c)
                         \<and> py_float_eq (py_round1 b) (py_round1 d))))"
proof -
  from run_cases[OF assms] show ?thesis
  proof
    assume "files s' = files s \<and> entries s' = entries s
           \<and> (r = Inl ValueError \<or> r = Inl AttributeError)"
    then show ?thesis by simp
  next
    assume "\<exists>s1 s2 urls. page s \<and> search w s = Some (Inr (), s1)
             \<and> get_search_results_urls w s1 = Some (Inr urls, s2)
             \<and> run_loop w (extract_lat_lang_from_url (url s)) urls
                  (writerow ''google_maps_leads.csv'' FIELD_NAMES
                     (open_append ''google_maps_leads.csv'' s2)) = (r, s')"
    then obtain s1 s2 urls where
      d: "search w s = Some (Inr (), s1)" "get_search_results_urls w s1 = Some (Inr urls, s2)"
      and l: "run_loop w (extract_lat_lang_from_url (url s)) urls
                  (writerow ''google_maps_leads.csv'' FIELD_NAMES
                     (open_append ''google_maps_leads.csv'' s2)) = (r, s')"
      by blast
    have f: "file_rows s2 = file_rows s"
      using search_frame[OF d(1)] get_search_results_urls_frame[OF d(2)]
      by (simp add: file_rows_def fun_eq_iff)
    from run_loop_rows[OF l] obtain rows where rows:
      "file_rows s' ''google_maps_leads.csv'' =
         file_rows (writerow ''google_maps_leads.csv'' FIELD_NAMES
                     (open_append ''google_maps_leads.csv'' s2)) ''google_maps_leads.csv'' @ rows"
      "subseq (map (\<lambda>row. row ! 4) rows) urls"
      "\<forall>row \<in> set rows. length row = 7
             \<and> (row ! 5, row ! 6) = extract_lat_lang_from_url (row ! 4)
             \<and> lat_lng_match (extract_lat_lang_from_url (url s)) (row ! 5, row ! 6) = Inr True"
      by blast
    have 1: "file_rows s' ''google_maps_leads.csv''
                 = file_rows s ''google_maps_leads.csv'' @ FIELD_NAMES # rows"
      using rows(1) f by (simp add: sink_opened)
    have 2: "length rows \<le> length urls"
      using list_emb_length[OF rows(2)] by simp
    have 3: "\<forall>row \<in> set rows. length row = 7
                   \<and> (row ! 5, row ! 6) = extract_lat_lang_from_url (row ! 4)
                   \<and> (\<exists>a b c d. py_float (fst (extract_lat_lang_from_url (url s))) = Some a
                         \<and> py_float (snd (extract_lat_lang_from_url (url s))) = Some b
                         \<and> py_float (row ! 5) = Some c \<and> py_float (row ! 6) = Some d
                         \<and> py_float_eq (py_round1 a) (py_round1 c)
                         \<and> py_float_eq (py_round1 b) (py_round1 d))"
    proof
      fix row assume "row \<in> set rows"
      with rows(3) have r: "length row = 7"
        "(row ! 5, row ! 6) = extract_lat_lang_from_url (row ! 4)"
        "lat_lng_match (extract_lat_lang_from_url (url s)) (row ! 5, row ! 6) = Inr True"
        by blast+
      from lat_lng_match_True[OF r(3)]
      have e: "\<exists>a b c d. py_float (fst (extract_lat_lang_from_url (url s))) = Some a
                         \<and> py_float (snd (extract_lat_lang_from_url (url s))) = Some b
                         \<and> py_float (row ! 5) = Some c \<and> py_float (row ! 6) = Some d
                         \<and> py_float_eq (py_round1 a) (py_round1 c)
                         \<and> py_float_eq (py_round1 b) (py_round1 d)"
        by simp
      show "length row = 7
                   \<and> (row ! 5, row ! 6) = extract_lat_lang_from_url (row ! 4)
                   \<and> (\<exists>a b c d. py_float (fst (extract_lat_lang_from_url (url s))) = Some a
                         \<and> py_float (snd (extract_lat_lang_from_url (url s))) = Some b
                         \<and> py_float (row ! 5) = Some c \<and> py_float (row ! 6) = Some d
                         \<and> py_float_eq (py_round1 a) (py_round1 c)
                         \<and> py_float_eq (py_round1 b) (py_round1 d))"
        using r(1,2) e by blast
    qed
    show ?thesis using d 1 2 rows(2) 3 by blast
  qed
qed

text \<open>A whole run in the concrete world, evaluated.\<close>

lemma demo_run:
  "(case run (demo_world [link_near, link_far]) demo_state of
      None \<Rightarrow> False
    | Some (r, s') \<Rightarrow> r = Inr () \<and> entries s' = [row_near] \<and> history s' = demo_history
        \<and> files s' ''google_maps_leads.csv'' = Some [FIELD_NAMES, row_near]
        \<and> files s' ''leads.csv'' = None)"
  by code_simp

lemma demo_run_Some:
  "run (demo_world [link_near, link_far]) demo_state
     = Some (Inr (), snd (the (run (demo_world [link_near, link_far]) demo_state)))"
  using demo_run by (cases "run (demo_world [link_near, link_far]) demo_state") auto

lemma demo_run_state:
  "entries (snd (the (run (demo_world [link_near, link_far]) demo_state))) = [row_near]"
  "history (snd (the (run (demo_world [link_near, link_far]) demo_state))) = demo_history"
  "files (snd (the (run (demo_world [link_near, link_far]) demo_state))) ''google_maps_leads.csv''
     = Some [FIELD_NAMES, row_near]"
  using demo_run by (cases "run (demo_world [link_near, link_far]) demo_state"; auto)+

theorem run_writes_only_matching_rows_witness:
  "run (demo_world [link_near, link_far]) demo_state
     = Some (Inr (), snd (the (run (demo_world [link_near, link_far]) demo_state)))
   \<and> file_rows (snd (the (run (demo_world [link_near, link_far]) demo_state))) ''google_maps_leads.csv''
       = [FIELD_NAMES, row_near]
   \<and> file_rows demo_state ''google_maps_leads.csv'' = []
   \<and> (\<exists>s1 s2 urls rows. search (demo_world [link_near, link_far]) demo_state = Some (Inr (), s1)
         \<and> get_search_results_urls (demo_world [link_near, link_far]) s1 = Some (Inr urls, s2)
         \<and> file_rows (snd (the (run (demo_world [link_near, link_far]) demo_state))) ''google_maps_leads.csv''
             = file_rows demo_state ''google_maps_leads.csv'' @ FIELD_NAMES # rows
         \<and> length rows \<le> length urls)"
proof -
  let ?S = "snd (the (run (demo_world [link_near, link_far]) demo_state))"
  have f: "file_rows ?S ''google_maps_leads.csv'' = [FIELD_NAMES, row_near]"
    by (simp add: file_rows_def demo_run_state)
  have f0: "file_rows demo_state ''google_maps_leads.csv'' = []"
    by (simp add: file_rows_def demo_state_def)
  have "files ?S \<noteq> files demo_state"
  proof
    assume "files ?S = files demo_state"
    then have "files ?S ''google_maps_leads.csv'' = files demo_state ''google_maps_leads.csv''"
      by simp
    moreover have "files demo_state ''google_maps_leads.csv'' = None"
      by (simp add: demo_state_def)
    ultimately show False by (simp only: demo_run_state) simp
  qed
  with run_writes_only_matching_rows[OF demo_run_Some] demo_run_Some f f0
  show ?thesis by blast
qed

text \<open>
  Claim C10 (every call of \<^verbatim>\<open>run\<close> with the page set opens the sink and writes a
  header) does not hold of the code: the two discovery passes come first, and when one of
  them raises, \<^verbatim>\<open>run\<close> ends before the \<^verbatim>\<open>open\<close>. In \<open>no_pane_world\<close> the results pane is
  not found, \<^verbatim>\<open>leftbar.hover()\<close> raises \<^verbatim>\<open>AttributeError\<close> inside \<^verbatim>\<open>search\<close>, and the
  sink file does not exist afterwards.
\<close>

theorem run_without_pane_counterexample:
  "page demo_state
   \<and> fst (the (run no_pane_world demo_state)) = Inl AttributeError
   \<and> files (snd (the (run no_pane_world demo_state))) ''google_maps_leads.csv'' = None
   \<and> history (snd (the (run no_pane_world demo_state)))
       = [Goto (url demo_state), QuerySelector MAIN_SELECTOR]"
  by code_simp

text \<open>
  Claim C10, as amended. With the page set, every call of \<^verbatim>\<open>run\<close> whose two discovery
  passes (the one inside \<^verbatim>\<open>search\<close> and the one of \<^verbatim>\<open>run\<close>) return their links ends, by
  returning or by raising in the loop, with the sink \<^verbatim>\<open>google_maps_leads.csv\<close> holding
  what it held before, followed by a header row, followed by the rows written in this
  run, which are at most as many as the links: the earlier contents are a prefix, the
  header is there also when no record was accepted, and no other file is touched.
\<close>

theorem run_appends_header:
  assumes "page s" and "search w s = Some (Inr (), s1)"
    and "get_search_results_urls w s1 = Some (Inr urls, s2)"
  shows "\<exists>r s' rows. run w s = Some (r, s')
           \<and> files s' ''google_maps_leads.csv''
               = Some (file_rows s ''google_maps_leads.csv'' @ FIELD_NAMES # rows)
           \<and> length rows \<le> length urls
           \<and> (\<forall>name. name \<noteq> ''google_maps_leads.csv'' \<longrightarrow> files s' name = files s name)"
proof -
  let ?s3 = "writerow ''google_maps_leads.csv'' FIELD_NAMES (open_append ''google_maps_leads.csv'' s2)"
  obtain r s' where l: "run_loop w (extract_lat_lang_from_url (url s)) urls ?s3 = (r, s')"
    by (cases "run_loop w (extract_lat_lang_from_url (url s)) urls ?s3") blast
  have run: "run w s = Some (r, s')" using run_unfold[OF assms] l by simp
  have fr: "files s2 = files s"
    using search_frame[OF assms(2)] get_search_results_urls_frame[OF assms(3)] by simp
  then have fr': "file_rows s2 = file_rows s" by (simp add: file_rows_def fun_eq_iff)
  from run_loop_rows[OF l] obtain rows where rows:
    "file_rows s' ''google_maps_leads.csv'' = file_rows ?s3 ''google_maps_leads.csv'' @ rows"
    "\<forall>name. name \<noteq> ''google_maps_leads.csv'' \<longrightarrow> files s' name = files ?s3 name"
    "files ?s3 ''google_maps_leads.csv'' \<noteq> None \<longrightarrow> files s' ''google_maps_leads.csv'' \<noteq> None"
    "subseq (map (\<lambda>row. row ! 4) rows) urls"
    by blast
  from rows(3) obtain rs where rs: "files s' ''google_maps_leads.csv'' = Some rs"
    by (auto simp: sink_opened)
  then have "rs = file_rows s' ''google_maps_leads.csv''" by (simp add: file_rows_def)
  then have 1: "files s' ''google_maps_leads.csv''
               = Some (file_rows s ''google_maps_leads.csv'' @ FIELD_NAMES # rows)"
    using rs rows(1) fr' by (simp add: sink_opened)
  have 2: "length rows \<le> length urls" using list_emb_length[OF rows(4)] by simp
  have 3: "\<forall>name. name \<noteq> ''google_maps_leads.csv'' \<longrightarrow> files s' name = files s name"
    using rows(2) fr by (simp add: sink_opened)
  from run 1 2 3 show ?thesis by blast
qed

text \<open>A run that accepts nothing, on an engine whose sink holds a row already: the row
  stays, and the header is appended.\<close>

lemma used_run:
  "search (demo_world [link_far]) used_state \<noteq> None
   \<and> fst (the (search (demo_world [link_far]) used_state)) = Inr ()
   \<and> get_search_results_urls (demo_world [link_far])
        (snd (the (search (demo_world [link_far]) used_state))) \<noteq> None
   \<and> fst (the (get_search_results_urls (demo_world [link_far])
        (snd (the (search (demo_world [link_far]) used_state))))) = Inr [link_far]
   \<and> fst (the (run (demo_world [link_far]) used_state)) = Inr ()
   \<and> entries (snd (the (run (demo_world [link_far]) used_state))) = []
   \<and> files (snd (the (run (demo_world [link_far]) used_state))) ''google_maps_leads.csv''
       = Some [[''an earlier row''], FIELD_NAMES]"
  by code_simp

theorem run_appends_header_witness:
  "page used_state
   \<and> search (demo_world [link_far]) used_state
       = Some (Inr (), snd (the (search (demo_world [link_far]) used_state)))
   \<and> get_search_results_urls (demo_world [link_far])
        (snd (the (search (demo_world [link_far]) used_state)))
       = Some (Inr [link_far], snd (the (get_search_results_urls (demo_world [link_far])
            (snd (the (search (demo_world [link_far]) used_state))))))
   \<and> (\<exists>r s' rows. run (demo_world [link_far]) used_state = Some (r, s')
           \<and> files s' ''google_maps_leads.csv''
               = Some (file_rows used_state ''google_maps_leads.csv'' @ FIELD_NAMES # rows)
           \<and> length rows \<le> length [link_far])
   \<and> file_rows used_state ''google_maps_leads.csv'' = [[''an earlier row'']]
   \<and> files (snd (the (run (demo_world [link_far]) used_state))) ''google_maps_leads.csv''
       = Some [[''an earlier row''], FIELD_NAMES]"
proof -
  let ?W = "demo_world [link_far]"
  let ?S1 = "snd (the (search ?W used_state))"
  let ?S2 = "snd (the (get_search_results_urls ?W ?S1))"
  have p: "page used_state" by (simp add: used_state_def demo_state_def)
  have a: "search ?W used_state = Some (Inr (), ?S1)"
    using used_run by (cases "search ?W used_state") auto
  have b: "get_search_results_urls ?W ?S1 = Some (Inr [link_far], ?S2)"
    using used_run by (cases "get_search_results_urls ?W ?S1") auto
  have f0: "file_rows used_state ''google_maps_leads.csv'' = [[''an earlier row'']]"
    by (simp add: file_rows_def used_state_def)
  have f1: "files (snd (the (run ?W used_state))) ''google_maps_leads.csv''
       = Some [[''an earlier row''], FIELD_NAMES]"
    using used_run by (simp only:)
  from run_appends_header[OF p a b]
  have "\<exists>r s' rows. run ?W used_state = Some (r, s')
           \<and> files s' ''google_maps_leads.csv''
               = Some (file_rows used_state ''google_maps_leads.csv'' @ FIELD_NAMES # rows)
           \<and> length rows \<le> length [link_far]"
    by blast
  with p a b f0 f1 show ?thesis by (simp only:)
qed

lemma run_loop_sentinel_aborts:
  assumes "extract_lat_lang_from_url link = (No_Info, No_Info)"
  shows "run_loop w main (link # links) s = (Inl ValueError, call Content (call (Goto link) s))"
  using assms lat_lng_match_sentinel[of main "(No_Info, No_Info)"] by (simp add: Let_def)

text \<open>
  Claim C1 (a link without coordinates is skipped and the loop goes on) does not hold of
  the code. With the discovered links \<open>link_bare\<close>, which matches neither pattern, and
  \<open>link_near\<close>, which matches the reference, \<^verbatim>\<open>run\<close> ends with the \<^verbatim>\<open>ValueError\<close> of
  \<^verbatim>\<open>float('No Info')\<close> at the first link: the second link is never visited, nothing is
  accepted and the sink holds the header only.
\<close>

theorem run_aborts_on_link_without_coordinates:
  "(case run (demo_world [link_bare, link_near]) demo_state of
      None \<Rightarrow> False
    | Some (r, s') \<Rightarrow> r = Inl ValueError \<and> entries s' = []
        \<and> files s' ''google_maps_leads.csv'' = Some [FIELD_NAMES]
        \<and> count_list (history s') (Goto link_bare) = 1
        \<and> count_list (history s') (Goto link_near) = 0)
   \<and> extract_lat_lang_from_url link_bare = (''No Info'', ''No Info'')
   \<and> lat_lng_match (extract_lat_lang_from_url (url demo_state)) (extract_lat_lang_from_url link_near)
        = Inr True"
  by code_simp

text \<open>The state after the first \<open>n\<close> iterations of the loop (or at the exception, when one
  of them raises) is \<open>snd (run_loop w main (take n links) s)\<close>: the loop over the whole
  list goes on from there.\<close>

lemma run_loop_append:
  "run_loop w main (xs @ ys) s =
     (case run_loop w main xs s of
        (Inl e, s1) \<Rightarrow> (Inl e, s1)
      | (Inr u, s1) \<Rightarrow> run_loop w main ys s1)"
proof (induction xs arbitrary: s)
  case Nil
  then show ?case by simp
next
  case (Cons x xs)
  show ?case
    by (cases "lat_lng_match main (extract_lat_lang_from_url x)")
      (simp_all add: Let_def Cons.IH)
qed

lemma run_loop_take_drop:
  "run_loop w main links s =
     (case run_loop w main (take n links) s of
        (Inl e, s1) \<Rightarrow> (Inl e, s1)
      | (Inr u, s1) \<Rightarrow> run_loop w main (drop n links) s1)"
  using run_loop_append[of w main "take n links" "drop n links" s] by simp

text \<open>
  Claim C7, as amended. When \<^verbatim>\<open>run\<close> returns, the entries list is the entries list from
  before the call followed by exactly the data rows written to the sink in this run, in
  the order written (the rows \<open>rows\<close> in both, \<open>extra\<close> empty); on an engine whose entries
  list was empty it is exactly those rows. The same holds when \<^verbatim>\<open>run\<close> raises, unless it
  is \<^verbatim>\<open>writer.writerow\<close> that raises (\<^verbatim>\<open>UnicodeEncodeError\<close>): the row was appended to the
  entries before the write, so the entries are then one row, \<open>extra\<close>, ahead of the sink.
  The same holds after every iteration of the loop: after the first \<open>n\<close> iterations the
  entries and the sink have grown by the same rows, but for the row of a failed write.
\<close>

theorem run_entries_mirror_sink:
  "(run w s = Some (r, s') \<longrightarrow>
      (\<exists>rows extra. entries s' = entries s @ rows @ extra
         \<and> (if r = Inl UnicodeEncodeError then (\<exists>row. extra = [row] \<and> unencodable w row)
            else extra = [])
         \<and> (file_rows s' ''google_maps_leads.csv''
              = file_rows s ''google_maps_leads.csv'' @ FIELD_NAMES # rows
            \<or> rows = [] \<and> files s' = files s)))
   \<and> (run_loop w main (take n links) s0 = (rn, sn) \<longrightarrow>
      (\<exists>rows extra. entries sn = entries s0 @ rows @ extra
         \<and> (if rn = Inl UnicodeEncodeError then (\<exists>row. extra = [row] \<and> unencodable w row)
            else extra = [])
         \<and> file_rows sn ''google_maps_leads.csv''
             = file_rows s0 ''google_maps_leads.csv'' @ rows))"
proof -
  have a: "\<exists>rows extra. entries s' = entries s @ rows @ extra
         \<and> (if r = Inl UnicodeEncodeError then (\<exists>row. extra = [row] \<and> unencodable w row)
            else extra = [])
         \<and> (file_rows s' ''google_maps_leads.csv''
              = file_rows s ''google_maps_leads.csv'' @ FIELD_NAMES # rows
            \<or> rows = [] \<and> files s' = files s)" if run: "run w s = Some (r, s')"
  proof -
    from run_cases[OF run] show ?thesis
    proof
      assume "files s' = files s \<and> entries s' = entries s
           \<and> (r = Inl ValueError \<or> r = Inl AttributeError)"
      then show ?thesis by (intro exI[of _ "[]"]) auto
    next
      assume "\<exists>s1 s2 urls. page s \<and> search w s = Some (Inr (), s1)
             \<and> get_search_results_urls w s1 = Some (Inr urls, s2)
             \<and> run_loop w (extract_lat_lang_from_url (url s)) urls
                  (writerow ''google_maps_leads.csv'' FIELD_NAMES
                     (open_append ''google_maps_leads.csv'' s2)) = (r, s')"
      then obtain s1 s2 urls where
        d: "search w s = Some (Inr (), s1)" "get_search_results_urls w s1 = Some (Inr urls, s2)"
        and l: "run_loop w (extract_lat_lang_from_url (url s)) urls
                  (writerow ''google_maps_leads.csv'' FIELD_NAMES
                     (open_append ''google_maps_leads.csv'' s2)) = (r, s')"
        by blast
      have fr: "files s2 = files s" "entries s2 = entries s"
        using search_frame[OF d(1)] get_search_results_urls_frame[OF d(2)] by simp_all
      then have fr': "file_rows s2 = file_rows s" by (simp add: file_rows_def fun_eq_iff)
      from run_loop_rows[OF l] obtain rows extra where rows:
        "entries s' = entries (writerow ''google_maps_leads.csv'' FIELD_NAMES
                     (open_append ''google_maps_leads.csv'' s2)) @ rows @ extra"
        "if r = Inl UnicodeEncodeError then (\<exists>row. extra = [row] \<and> unencodable w row)
            else extra = []"
        "file_rows s' ''google_maps_leads.csv'' =
           file_rows (writerow ''google_maps_leads.csv'' FIELD_NAMES
                     (open_append ''google_maps_leads.csv'' s2)) ''google_maps_leads.csv'' @ rows"
        by blast
      have "entries s' = entries s @ rows @ extra" using rows(1) fr by (simp add: sink_opened)
      moreover have "file_rows s' ''google_maps_leads.csv''
              = file_rows s ''google_maps_leads.csv'' @ FIELD_NAMES # rows"
        using rows(3) fr' by (simp add: sink_opened)
      ultimately show ?thesis using rows(2) by blast
    qed
  qed
  have b: "\<exists>rows extra. entries sn = entries s0 @ rows @ extra
         \<and> (if rn = Inl UnicodeEncodeError then (\<exists>row. extra = [row] \<and> unencodable w row)
            else extra = [])
         \<and> file_rows sn ''google_maps_leads.csv''
             = file_rows s0 ''google_maps_leads.csv'' @ rows"
    if n: "run_loop w main (take n links) s0 = (rn, sn)"
    using run_loop_rows[OF n] by blast
  from a b show ?thesis by blast
qed

theorem run_entries_mirror_sink_witness:
  "run (demo_world [link_near, link_far]) demo_state
     = Some (Inr (), snd (the (run (demo_world [link_near, link_far]) demo_state)))
   \<and> entries demo_state = []
   \<and> entries (snd (the (run (demo_world [link_near, link_far]) demo_state))) = [row_near]
   \<and> file_rows (snd (the (run (demo_world [link_near, link_far]) demo_state))) ''google_maps_leads.csv''
       = [FIELD_NAMES, row_near]
   \<and> (\<exists>rows. entries (snd (the (run (demo_world [link_near, link_far]) demo_state)))
               = entries demo_state @ rows
         \<and> (file_rows (snd (the (run (demo_world [link_near, link_far]) demo_state))) ''google_maps_leads.csv''
              = file_rows demo_state ''google_maps_leads.csv'' @ FIELD_NAMES # rows
            \<or> rows = [] \<and> files (snd (the (run (demo_world [link_near, link_far]) demo_state)))
                 = files demo_state))"
proof -
  let ?S = "snd (the (run (demo_world [link_near, link_far]) demo_state))"
  have f: "file_rows ?S ''google_maps_leads.csv'' = [FIELD_NAMES, row_near]"
    by (simp add: file_rows_def demo_run_state)
  have e0: "entries demo_state = []" by (simp add: demo_state_def)
  have ne: "(Inr () :: error + unit) \<noteq> Inl UnicodeEncodeError" by simp
  from run_entries_mirror_sink[of "demo_world [link_near, link_far]" demo_state "Inr ()" ?S]
    demo_run_Some
  obtain rows extra where
    "entries ?S = entries demo_state @ rows @ extra"
    "if (Inr () :: error + unit) = Inl UnicodeEncodeError
     then (\<exists>row. extra = [row] \<and> unencodable (demo_world [link_near, link_far]) row)
     else extra = []"
    "file_rows ?S ''google_maps_leads.csv''
              = file_rows demo_state ''google_maps_leads.csv'' @ FIELD_NAMES # rows
            \<or> rows = [] \<and> files ?S = files demo_state"
    by blast
  then have "\<exists>rows. entries ?S = entries demo_state @ rows
         \<and> (file_rows ?S ''google_maps_leads.csv''
              = file_rows demo_state ''google_maps_leads.csv'' @ FIELD_NAMES # rows
            \<or> rows = [] \<and> files ?S = files demo_state)"
    using ne by (intro exI[of _ rows]) simp
  with demo_run_Some e0 demo_run_state(1) f show ?thesis by blast
qed

text \<open>A failed write: in \<open>refusing_world\<close> the first link matches, its row is appended to
  the entries, and \<^verbatim>\<open>writerow\<close> raises: the sink holds the header only.\<close>

lemma refused_row_in_entries_only:
  "fst (the (run refusing_world demo_state)) = Inl UnicodeEncodeError
   \<and> entries (snd (the (run refusing_world demo_state))) = [row_near]
   \<and> files (snd (the (run refusing_world demo_state))) ''google_maps_leads.csv''
       = Some [FIELD_NAMES]"
  by code_simp

text \<open>
  Claim C7 as stated fails for a second \<^verbatim>\<open>run\<close> on the same engine: \<^verbatim>\<open>_entries\<close> is
  set to the empty list by the constructor only. After the first run the sink holds the
  header and \<open>row_near\<close>; the second run writes a header and \<open>row_near\<close> again, one data
  row, and leaves two entries.
\<close>

theorem second_run_entries_counterexample:
  "file_rows (snd (the (run (demo_world [link_near, link_far]) demo_state))) ''google_maps_leads.csv''
     = [FIELD_NAMES, row_near]
   \<and> entries (snd (the (run (demo_world [link_near, link_far]) demo_state))) = [row_near]
   \<and> file_rows (snd (the (run (demo_world [link_near, link_far])
        (snd (the (run (demo_world [link_near, link_far]) demo_state)))))) ''google_maps_leads.csv''
     = [FIELD_NAMES, row_near, FIELD_NAMES, row_near]
   \<and> entries (snd (the (run (demo_world [link_near, link_far])
        (snd (the (run (demo_world [link_near, link_far]) demo_state))))))
     = [row_near, row_near]"
  by code_simp

lemma scroll_loop_no_scrape:
  assumes "scroll_loop w start h = Some h'"
  shows "count_list h' (QuerySelectorAll LINK_SELECTOR) = count_list h (QuerySelectorAll LINK_SELECTOR)
       \<and> count_list h' Hover = count_list h Hover
       \<and> count_list h' (Goto target) = count_list h (Goto target)"
  using assms
proof (induction rule: scroll_loop.raw_induct[rotated 1, consumes 1])
  case (1 scroll_loop w start h h')
  let ?fin = "time_time w (h @ [MouseWheel 0 1000, Sleep SLEEP_PER_SCROLL_S])"
  let ?cyc = "[MouseWheel 0 1000, Sleep SLEEP_PER_SCROLL_S, Time ?fin, QuerySelector END_SELECTOR]"
  show ?case
  proof (cases "end_locator w (h @ ?cyc) \<or> py_gt_int (py_sub ?fin start) SCROLL_TIME_DURATION_S")
    case True
    with 1(2) have "h' = h @ ?cyc" by (auto simp: Let_def)
    then show ?thesis by simp
  next
    case False
    with 1(2) have "scroll_loop w start (h @ ?cyc) = Some h'" by (auto simp: Let_def)
    from 1(1)[OF this] show ?thesis by simp
  qed
qed

lemma get_search_results_urls_one_pass:
  assumes "get_search_results_urls w s = Some (Inr urls, s')"
  shows "count_list (history s') (QuerySelectorAll LINK_SELECTOR)
           = count_list (history s) (QuerySelectorAll LINK_SELECTOR) + 1
       \<and> count_list (history s') Hover = count_list (history s) Hover + 1
       \<and> count_list (history s') (Goto target) = count_list (history s) (Goto target)"
proof -
  let ?s1 = "call (Sleep (1 / 2)) (call Hover (call (QuerySelector MAIN_SELECTOR) s))"
  have mp: "main_pane w (history (call (QuerySelector MAIN_SELECTOR) s))"
    using assms by (auto simp: get_search_results_urls_def hover_search_results_def Let_def
        split: if_splits)
  then have h: "hover_search_results w s = (Inr (), ?s1)"
    by (simp add: hover_search_results_def Let_def)
  from assms h obtain h' where
    loop: "scroll_loop w (time_time w (history ?s1))
             (history ?s1 @ [Time (time_time w (history ?s1))]) = Some h'"
    and s': "s' = ?s1\<lparr>history := h' @ [QuerySelectorAll LINK_SELECTOR]\<rparr>"
    by (auto simp: get_search_results_urls_def Let_def split: option.splits)
  from scroll_loop_no_scrape[OF loop, of target] show ?thesis
    by (simp add: s' call_def)
qed

lemma run_loop_no_scrape:
  "run_loop w main links s = (r, s') \<Longrightarrow>
     count_list (history s') (QuerySelectorAll LINK_SELECTOR)
       = count_list (history s) (QuerySelectorAll LINK_SELECTOR)
     \<and> count_list (history s') Hover = count_list (history s) Hover"
proof (induction links arbitrary: s)
  case Nil
  then show ?case by simp
next
  case (Cons link links)
  let ?s1 = "call Content (call (Goto link) s)"
  have c: "count_list (history ?s1) (QuerySelectorAll LINK_SELECTOR)
             = count_list (history s) (QuerySelectorAll LINK_SELECTOR)"
    "count_list (history ?s1) Hover = count_list (history s) Hover"
    by (simp_all add: call_def)
  show ?case
  proof (cases "lat_lng_match main (extract_lat_lang_from_url link)")
    case (Inl e)
    with Cons.prems have "s' = ?s1" by (simp add: Let_def)
    with c show ?thesis by simp
  next
    case (Inr matched)
    show ?thesis
    proof (cases matched)
      case False
      with Inr Cons.prems have "run_loop w main links ?s1 = (r, s')" by (simp add: Let_def)
      from Cons.IH[OF this] c show ?thesis by simp
    next
      case True
      define s2 where "s2 = ?s1\<lparr>entries := entries ?s1
          @ [parse_data_with_soup w (page_content w (history ?s1)) link]\<rparr>"
      define s3 where "s3 = writerow ''google_maps_leads.csv''
          (parse_data_with_soup w (page_content w (history ?s1)) link) s2"
      have h2: "history s2 = history ?s1" "history s3 = history ?s1"
        by (simp_all add: s3_def s2_def writerow_def)
      show ?thesis
      proof (cases "unencodable w (parse_data_with_soup w (page_content w (history ?s1)) link)")
        case refused: True
        with True Inr Cons.prems have "s' = s2" by (simp add: Let_def s2_def)
        with c h2 show ?thesis by simp
      next
        case written: False
        with True Inr Cons.prems have "run_loop w main links s3 = (r, s')"
          by (simp add: Let_def s3_def s2_def)
        from Cons.IH[OF this] c h2 show ?thesis by simp
      qed
    qed
  qed
qed

text \<open>
  Claim C9 (one discovery pass for each \<^verbatim>\<open>run\<close>) does not hold of the code. Every call
  of \<^verbatim>\<open>run\<close> that completes has hovered over the results pane twice and scraped the
  links twice: once inside \<^verbatim>\<open>search\<close>, which drops the list, and once more in \<^verbatim>\<open>run\<close>
  itself.
\<close>

theorem run_discovers_twice:
  assumes "run w s = Some (Inr (), s')"
  shows "count_list (history s') (QuerySelectorAll LINK_SELECTOR)
           = count_list (history s) (QuerySelectorAll LINK_SELECTOR) + 2
       \<and> count_list (history s') Hover = count_list (history s) Hover + 2"
proof -
  from run_cases[OF assms] obtain s1 s2 urls where
    p: "page s" and d: "search w s = Some (Inr (), s1)"
      "get_search_results_urls w s1 = Some (Inr urls, s2)"
    and l: "run_loop w (extract_lat_lang_from_url (url s)) urls
                  (writerow ''google_maps_leads.csv'' FIELD_NAMES
                     (open_append ''google_maps_leads.csv'' s2)) = (Inr (), s')"
    by blast
  from d(1) p obtain urls0 where
    g0: "get_search_results_urls w (call (Goto (url s)) s) = Some (Inr urls0, s1)"
    by (auto simp: search_def split: option.splits sum.splits)
  have h3: "history (writerow ''google_maps_leads.csv'' FIELD_NAMES
                     (open_append ''google_maps_leads.csv'' s2)) = history s2"
    by (simp add: writerow_def open_append_def)
  from get_search_results_urls_one_pass[OF g0] get_search_results_urls_one_pass[OF d(2)]
    run_loop_no_scrape[OF l] h3
  show ?thesis by (simp add: call_def)
qed

theorem run_discovers_twice_witness:
  "run (demo_world [link_near, link_far]) demo_state
     = Some (Inr (), snd (the (run (demo_world [link_near, link_far]) demo_state)))
   \<and> history demo_state = []
   \<and> history (snd (the (run (demo_world [link_near, link_far]) demo_state))) = demo_history
   \<and> count_list demo_history (QuerySelectorAll LINK_SELECTOR) = 2
   \<and> count_list demo_history Hover = 2
   \<and> count_list demo_history (Goto (url demo_state)) = 1"
proof -
  have h0: "history demo_state = []" by (simp add: demo_state_def)
  have g: "count_list demo_history (Goto (url demo_state)) = 1" by code_simp
  from run_discovers_twice[OF demo_run_Some] demo_run_Some demo_run_state(2) h0 g
  show ?thesis by simp
qed

end
